theory Spec2Isabelle
  imports Main "HOL-Library.Multiset"
begin

section \<open>Data model of the workout logger\<close>

text \<open>
  The hook \<open>useWorkoutLogger\<close> works on plain objects. Identifiers are strings.
  A JavaScript number is modelled as an integer: the scoring rules only add and
  multiply, in the order the source folds; rounding of doubles and \<open>NaN\<close> are
  outside the model. An optional or nullable field is an \<open>option\<close>, \<open>None\<close>
  standing for both \<open>undefined\<close> and \<open>null\<close>.
\<close>

type_synonym ident = string

text \<open>
  The text of a message is typed by the user and is examined character by character,
  so it is kept as JavaScript has it: the sequence of its UTF-16 code units.
\<close>

type_synonym js_string = "int list"

datatype js_time = TimeString string | TimeNumber int

text \<open>\<open>interface LoggedSet\<close>.\<close>

record logged_set =
  ls_id :: "ident option"
  ls_weight :: "int option"
  ls_reps :: int
  ls_distance :: "int option"
  ls_time :: "js_time option"
  ls_calories :: "int option"

text \<open>\<open>interface ExerciseLog\<close>.\<close>

record exercise_log =
  el_exercise_id :: ident
  el_sets :: "logged_set list"

text \<open>
  The type \<open>Workout\<close> is imported from \<open>types/workout\<close>, which is not among the
  sources. The records below carry exactly the fields the hook reads:
  \<open>workout.id\<close>, \<open>workout.type\<close>, the optional \<open>workout.workout_exercises\<close>, and of
  each entry \<open>exercise_id\<close>, \<open>exercise.name\<close>, the set count \<open>sets\<close> (a count, hence a
  natural number) and the default targets.
\<close>

record exercise_ref =
  ex_name :: string

record workout_exercise =
  we_exercise_id :: ident
  we_exercise :: exercise_ref
  we_sets :: nat
  we_weight :: "int option"
  we_reps :: int
  we_distance :: "int option"
  we_time :: "js_time option"
  we_calories :: "int option"

record workout =
  w_id :: ident
  w_type :: string
  workout_exercises :: "workout_exercise list option"

section \<open>Score calculator\<close>

text \<open>\<open>x || 0\<close> on an optional number: \<open>undefined\<close>, \<open>null\<close> and \<open>0\<close> all give \<open>0\<close>.\<close>

definition or_zero :: "int option \<Rightarrow> int" where
  "or_zero x = (case x of None \<Rightarrow> 0 | Some v \<Rightarrow> if v = 0 then 0 else v)"

text \<open>\<open>workout.workout_exercises?.[index]\<close>: \<open>undefined\<close> when the sequence is absent
  or the index is past its end.\<close>

definition exercise_at :: "workout \<Rightarrow> nat \<Rightarrow> workout_exercise option" where
  "exercise_at w index =
     (case workout_exercises w of
        None \<Rightarrow> None
      | Some es \<Rightarrow> if index < length es then Some (es ! index) else None)"

text \<open>The four branches of the reducer, each \<open>total + log.sets.reduce(..., 0)\<close>.\<close>

definition run_branch :: "int \<Rightarrow> exercise_log \<Rightarrow> int" where
  "run_branch tot log =
     tot + foldl (\<lambda>setTotal s. setTotal + or_zero (ls_distance s)) 0 (el_sets log)"

definition assault_bike_branch :: "int \<Rightarrow> exercise_log \<Rightarrow> int" where
  "assault_bike_branch tot log =
     tot + foldl (\<lambda>setTotal s. setTotal + or_zero (ls_calories s)) 0 (el_sets log)"

definition weight_training_branch :: "int \<Rightarrow> exercise_log \<Rightarrow> int" where
  "weight_training_branch tot log =
     tot + foldl (\<lambda>setTotal s. setTotal + or_zero (ls_weight s) * ls_reps s) 0 (el_sets log)"

definition default_branch :: "int \<Rightarrow> exercise_log \<Rightarrow> int" where
  "default_branch tot log =
     tot + foldl (\<lambda>setTotal s. setTotal + or_zero (ls_weight s) * ls_reps s) 0 (el_sets log)"

text \<open>The callback of \<open>logs.reduce((total, log, index) => ..., 0)\<close>.\<close>

definition score_step :: "workout \<Rightarrow> int \<Rightarrow> nat \<times> exercise_log \<Rightarrow> int" where
  "score_step w tot il =
     (case il of (index, log) \<Rightarrow>
        (case exercise_at w index of
           None \<Rightarrow> tot
         | Some exercise \<Rightarrow>
             if ex_name (we_exercise exercise) = ''Run'' then run_branch tot log
             else if ex_name (we_exercise exercise) = ''Assault Bike''
               then assault_bike_branch tot log
             else if w_type w = ''weight training'' then weight_training_branch tot log
             else default_branch tot log))"

definition calculateTotalScore :: "exercise_log list \<Rightarrow> workout \<Rightarrow> int" where
  "calculateTotalScore logs w = foldl (score_step w) 0 (enumerate 0 logs)"

text \<open>
  The scoring table as the specification words it: the contribution of the log at a
  position, chosen by the name of the exercise at that position.
\<close>

definition spec_contribution :: "workout \<Rightarrow> nat \<Rightarrow> exercise_log \<Rightarrow> int" where
  "spec_contribution w n log =
     (case exercise_at w n of
        None \<Rightarrow> 0
      | Some e \<Rightarrow>
          if ex_name (we_exercise e) = ''Run''
            then sum_list (map (\<lambda>s. case ls_distance s of None \<Rightarrow> 0 | Some d \<Rightarrow> d) (el_sets log))
          else if ex_name (we_exercise e) = ''Assault Bike''
            then sum_list (map (\<lambda>s. case ls_calories s of None \<Rightarrow> 0 | Some c \<Rightarrow> c) (el_sets log))
          else sum_list (map (\<lambda>s. (case ls_weight s of None \<Rightarrow> 0 | Some x \<Rightarrow> x) * ls_reps s)
                 (el_sets log)))"

text \<open>The two scenarios of the specification.\<close>

definition a_set :: "int option \<Rightarrow> int \<Rightarrow> int option \<Rightarrow> logged_set" where
  "a_set wt r d =
     \<lparr>ls_id = None, ls_weight = wt, ls_reps = r, ls_distance = d, ls_time = None,
      ls_calories = None\<rparr>"

definition an_exercise :: "string \<Rightarrow> workout_exercise" where
  "an_exercise n =
     \<lparr>we_exercise_id = ''e1'', we_exercise = \<lparr>ex_name = n\<rparr>, we_sets = 2, we_weight = None,
      we_reps = 0, we_distance = None, we_time = None, we_calories = None\<rparr>"



definition bench_workout :: workout where
  "bench_workout =
     \<lparr>w_id = ''w2'', w_type = ''weight training'',
      workout_exercises = Some [an_exercise ''Bench Press'']\<rparr>"


section \<open>The record store\<close>

text \<open>
  The hook reads and writes rows through the client of the hosted backend
  (\<open>lib/supabase\<close>), which is not among the sources. The store below is the part of it
  the hook calls: three tables, the outcome the backend will give to each coming call
  (\<open>faults\<close>: \<open>Some e\<close> makes the next call fail with \<open>e\<close>), and the trace of the calls
  issued so far with their outcomes, oldest first.
\<close>

text \<open>
  What a call can fail with: an \<open>Error\<close> the code throws itself, a \<open>TypeError\<close> the
  language raises, and the error object a store call reports.
\<close>

datatype error = Error string | TypeError string | StoreError string

record score_fields =
  sf_user_id :: ident
  sf_workout_log_id :: ident
  sf_exercise_id :: ident
  sf_weight :: "int option"
  sf_reps :: int
  sf_distance :: "int option"
  sf_time :: "js_time option"
  sf_calories :: "int option"

text \<open>A row handed to the store may lack its identifier; a persisted row has one.\<close>

type_synonym score_row = "ident option \<times> score_fields"
type_synonym exercise_score = "ident \<times> score_fields"

record workout_log_fields =
  wl_user_id :: ident
  wl_workout_id :: ident
  wl_notes :: string
  wl_score :: int
  wl_total :: int
  wl_completed_at :: string

type_synonym workout_log = "ident \<times> workout_log_fields"

record workout_log_patch =
  p_notes :: string
  p_score :: int
  p_total :: int
  p_completed_at :: string

record message_fields =
  m_content :: js_string
  m_profile_id :: ident

type_synonym message = "ident \<times> message_fields"

datatype store_call =
    InsertWorkoutLog workout_log_fields
  | UpdateWorkoutLog workout_log_patch ident ident
  | SelectScoreIds ident
  | DeleteScores "ident list"
  | InsertScores "score_fields list"
  | UpsertScores "score_row list"
  | InsertMessage message_fields

record store =
  workout_logs :: "workout_log list"
  exercise_scores :: "exercise_score list"
  messages :: "message list"
  faults :: "string option list"
  trace :: "(store_call \<times> string option) list"

definition next_fault :: "store \<Rightarrow> string option" where
  "next_fault s = (case faults s of [] \<Rightarrow> None | f # _ \<Rightarrow> f)"

definition issued :: "store_call \<Rightarrow> string option \<Rightarrow> store \<Rightarrow> store" where
  "issued c outcome s = s\<lparr>faults := tl (faults s), trace := trace s @ [(c, outcome)]\<rparr>"

text \<open>
  Modelled from the spec: the identifiers the backend assigns ("rows without one are
  assigned a fresh identifier"). A fresh identifier is a string longer than every
  identifier in use, so it differs from each of them.
\<close>

definition maxlen :: "ident list \<Rightarrow> nat" where
  "maxlen used = foldr (\<lambda>i m. max (length i) m) used 0"

definition fresh_id :: "ident list \<Rightarrow> ident" where
  "fresh_id used = replicate (Suc (maxlen used)) (CHR ''#'')"

fun stamp :: "ident list \<Rightarrow> score_row list \<Rightarrow> exercise_score list" where
  "stamp used [] = []"
| "stamp used ((Some i, f) # rows) = (i, f) # stamp used rows"
| "stamp used ((None, f) # rows) = (fresh_id used, f) # stamp (fresh_id used # used) rows"

text \<open>The identifiers a batch of rows carries.\<close>

definition carried :: "score_row list \<Rightarrow> ident list" where
  "carried rows = concat (map (\<lambda>r. case fst r of None \<Rightarrow> [] | Some i \<Rightarrow> [i]) rows)"

text \<open>
  Modelled from the spec: \<open>insert(table, row) -> row\<close> on \<open>workout_logs\<close>; the row
  comes back with the identifier assigned to it.
\<close>

definition insert_workout_log :: "workout_log_fields \<Rightarrow> store \<Rightarrow> (error + workout_log) \<times> store" where
  "insert_workout_log f s =
     (case next_fault s of
        Some e \<Rightarrow> (Inl (StoreError e), issued (InsertWorkoutLog f) (Some e) s)
      | None \<Rightarrow>
          (let row = (fresh_id (map fst (workout_logs s)), f)
           in (Inr row, issued (InsertWorkoutLog f) None
                 (s\<lparr>workout_logs := workout_logs s @ [row]\<rparr>))))"

text \<open>
  Modelled from the spec: \<open>update(table, row, filter) -> row\<close> on \<open>workout_logs\<close>,
  filtered by identifier and owning user and read back as a single row. When the filter
  does not select exactly one row there is no single row to return: the call fails
  and changes nothing.
\<close>

definition no_single_row :: string where
  "no_single_row = ''JSON object requested, multiple (or no) rows returned''"

definition apply_patch :: "workout_log_patch \<Rightarrow> workout_log_fields \<Rightarrow> workout_log_fields" where
  "apply_patch p f =
     f\<lparr>wl_notes := p_notes p, wl_score := p_score p, wl_total := p_total p,
       wl_completed_at := p_completed_at p\<rparr>"

definition update_workout_log ::
  "workout_log_patch \<Rightarrow> ident \<Rightarrow> ident \<Rightarrow> store \<Rightarrow> (error + workout_log) \<times> store" where
  "update_workout_log p wid uid s =
     (let c = UpdateWorkoutLog p wid uid in
      case next_fault s of
        Some e \<Rightarrow> (Inl (StoreError e), issued c (Some e) s)
      | None \<Rightarrow>
          (case filter (\<lambda>r. fst r = wid \<and> wl_user_id (snd r) = uid) (workout_logs s) of
             [r] \<Rightarrow>
               (Inr (wid, apply_patch p (snd r)),
                issued c None
                  (s\<lparr>workout_logs :=
                       map (\<lambda>r. if fst r = wid \<and> wl_user_id (snd r) = uid
                                 then (fst r, apply_patch p (snd r)) else r)
                         (workout_logs s)\<rparr>))
           | _ \<Rightarrow> (Inl (StoreError no_single_row), issued c (Some no_single_row) s)))"

text \<open>
  Modelled from the spec: \<open>select(table, filter) -> sequence of row\<close>, here the
  identifiers of the \<open>exercise_scores\<close> rows of one workout log.
\<close>

definition select_score_ids :: "ident \<Rightarrow> store \<Rightarrow> (error + ident list) \<times> store" where
  "select_score_ids wid s =
     (case next_fault s of
        Some e \<Rightarrow> (Inl (StoreError e), issued (SelectScoreIds wid) (Some e) s)
      | None \<Rightarrow>
          (Inr (map fst (filter (\<lambda>r. sf_workout_log_id (snd r) = wid) (exercise_scores s))),
           issued (SelectScoreIds wid) None s))"

text \<open>
  Modelled from the spec: \<open>delete(table, filter) -> void\<close>, the filter being
  membership of the identifier in a list.
\<close>

definition delete_scores :: "ident list \<Rightarrow> store \<Rightarrow> (error + unit) \<times> store" where
  "delete_scores ids s =
     (case next_fault s of
        Some e \<Rightarrow> (Inl (StoreError e), issued (DeleteScores ids) (Some e) s)
      | None \<Rightarrow>
          (Inr (), issued (DeleteScores ids) None
             (s\<lparr>exercise_scores := filter (\<lambda>r. fst r \<notin> set ids) (exercise_scores s)\<rparr>)))"

text \<open>
  Modelled from the spec: \<open>insert(table, sequence of row)\<close> on \<open>exercise_scores\<close>; the
  rows carry no identifier and each is assigned a fresh one.
\<close>

definition insert_scores :: "score_fields list \<Rightarrow> store \<Rightarrow> (error + unit) \<times> store" where
  "insert_scores rows s =
     (case next_fault s of
        Some e \<Rightarrow> (Inl (StoreError e), issued (InsertScores rows) (Some e) s)
      | None \<Rightarrow>
          (Inr (), issued (InsertScores rows) None
             (s\<lparr>exercise_scores :=
                  exercise_scores s
                  @ stamp (map fst (exercise_scores s)) (map (\<lambda>f. (None, f)) rows)\<rparr>)))"

text \<open>
  Modelled from the spec: \<open>upsert(table, sequence of row, conflict_key) -> void\<close>, the
  single insert-or-update-by-identifier batch: a row whose identifier is in the table
  replaces that row in place, a row with an identifier the table does not have is
  inserted under it, and a row without one is assigned a fresh identifier and inserted.
  The rows of the batch are taken one after the other; the spec states no refusal of a
  batch, so of two rows that name one identifier the later one is the row that stays.
\<close>

definition put :: "exercise_score list \<Rightarrow> exercise_score \<Rightarrow> exercise_score list" where
  "put tbl r =
     (if fst r \<in> set (map fst tbl) then map (\<lambda>x. if fst x = fst r then r else x) tbl
      else tbl @ [r])"

definition upsert_scores :: "score_row list \<Rightarrow> store \<Rightarrow> (error + unit) \<times> store" where
  "upsert_scores rows s =
     (case next_fault s of
        Some e \<Rightarrow> (Inl (StoreError e), issued (UpsertScores rows) (Some e) s)
      | None \<Rightarrow>
          (Inr (), issued (UpsertScores rows) None
             (s\<lparr>exercise_scores :=
                  foldl put (exercise_scores s)
                    (stamp (map fst (exercise_scores s) @ carried rows) rows)\<rparr>)))"

text \<open>
  Modelled from the spec: \<open>insert(table, row) -> row\<close> on \<open>messages\<close>. Of the columns
  the backend fills in, only the identifier is kept.
\<close>

definition insert_message :: "message_fields \<Rightarrow> store \<Rightarrow> (error + message) \<times> store" where
  "insert_message f s =
     (case next_fault s of
        Some e \<Rightarrow> (Inl (StoreError e), issued (InsertMessage f) (Some e) s)
      | None \<Rightarrow>
          (let row = (fresh_id (map fst (messages s)), f)
           in (Inr row, issued (InsertMessage f) None (s\<lparr>messages := messages s @ [row]\<rparr>))))"

section \<open>The hook \<open>useWorkoutLogger\<close>\<close>

text \<open>
  The state of the hook: the signed-in user of the authentication context (absent when
  nobody is signed in) and the \<open>logging\<close> flag. An asynchronous function of the hook takes
  the hook state and the store and returns its result (\<open>Inl\<close>: the promise is rejected
  with that error), the hook state and the store afterwards. The time of the call,
  \<open>new Date().toISOString()\<close>, is an argument.
\<close>

record user =
  u_id :: ident

record hook =
  hk_user :: "user option"
  logging :: bool

definition initial_weight :: "int option \<Rightarrow> int" where
  "initial_weight x = or_zero x"

definition initial_set :: "workout_exercise \<Rightarrow> logged_set" where
  "initial_set exercise =
     \<lparr>ls_id = None, ls_weight = Some (initial_weight (we_weight exercise)),
      ls_reps = we_reps exercise, ls_distance = we_distance exercise,
      ls_time = we_time exercise, ls_calories = we_calories exercise\<rparr>"

text \<open>\<open>Array(exercise.sets).fill({...})\<close>: as many copies of the initial set as the
  set count says. (\<open>Array(n)\<close> raises a RangeError on a negative or fractional \<open>n\<close>; a set
  count is a natural number here.)\<close>

definition startWorkoutLogging :: "hook \<Rightarrow> workout \<Rightarrow> (error + exercise_log list) \<times> hook" where
  "startWorkoutLogging h w =
     (case hk_user h of
        None \<Rightarrow> (Inl (Error ''User must be logged in to start a workout''), h)
      | Some u \<Rightarrow>
          (Inr (case workout_exercises w of
                  None \<Rightarrow> []
                | Some es \<Rightarrow>
                    map (\<lambda>exercise.
                          \<lparr>el_exercise_id = we_exercise_id exercise,
                           el_sets = replicate (we_sets exercise) (initial_set exercise)\<rparr>) es),
           h\<lparr>logging := True\<rparr>))"

text \<open>\<open>logs.flatMap((log) => log.sets.map((set) => ({...})))\<close>, without and with the
  \<open>id\<close> of the set.\<close>

definition fields_of :: "ident \<Rightarrow> ident \<Rightarrow> exercise_log \<Rightarrow> logged_set \<Rightarrow> score_fields" where
  "fields_of uid wid log s =
     \<lparr>sf_user_id = uid, sf_workout_log_id = wid, sf_exercise_id = el_exercise_id log,
      sf_weight = ls_weight s, sf_reps = ls_reps s, sf_distance = ls_distance s,
      sf_time = ls_time s, sf_calories = ls_calories s\<rparr>"

definition new_scores :: "ident \<Rightarrow> ident \<Rightarrow> exercise_log list \<Rightarrow> score_fields list" where
  "new_scores uid wid logs =
     concat (map (\<lambda>log. map (\<lambda>s. fields_of uid wid log s) (el_sets log)) logs)"

definition exerciseScores :: "ident \<Rightarrow> ident \<Rightarrow> exercise_log list \<Rightarrow> score_row list" where
  "exerciseScores uid wid logs =
     concat (map (\<lambda>log. map (\<lambda>s. (ls_id s, fields_of uid wid log s)) (el_sets log)) logs)"

definition logWorkout_try ::
  "user \<Rightarrow> string \<Rightarrow> workout \<Rightarrow> exercise_log list \<Rightarrow> string \<Rightarrow> store
     \<Rightarrow> (error + workout_log) \<times> store" where
  "logWorkout_try u now w logs notes s =
     (let totalScore = calculateTotalScore logs w in
      case insert_workout_log
             \<lparr>wl_user_id = u_id u, wl_workout_id = w_id w, wl_notes = notes,
              wl_score = totalScore, wl_total = totalScore, wl_completed_at = now\<rparr> s of
        (Inl workoutError, s1) \<Rightarrow> (Inl workoutError, s1)
      | (Inr workoutLog, s1) \<Rightarrow>
          (case insert_scores (new_scores (u_id u) (fst workoutLog) logs) s1 of
             (Inl scoresError, s2) \<Rightarrow> (Inl scoresError, s2)
           | (Inr _, s2) \<Rightarrow> (Inr workoutLog, s2)))"

text \<open>The guard stands before the \<open>try\<close>; the \<open>catch\<close> logs and rethrows; the
  \<open>finally\<close> clears the flag.\<close>

definition logWorkout ::
  "hook \<Rightarrow> string \<Rightarrow> workout \<Rightarrow> exercise_log list \<Rightarrow> string \<Rightarrow> store
     \<Rightarrow> (error + workout_log) \<times> hook \<times> store" where
  "logWorkout h now w logs notes s =
     (case hk_user h of
        None \<Rightarrow> (Inl (Error ''User must be logged in to log a workout''), h, s)
      | Some u \<Rightarrow>
          (case logWorkout_try u now w logs notes s of
             (r, s') \<Rightarrow> (r, h\<lparr>logging := False\<rparr>, s')))"

text \<open>\<open>new Set(xs)\<close> read back as an array: the first occurrence of each element, in
  order.\<close>

definition set_array :: "'a list \<Rightarrow> 'a list" where
  "set_array xs = rev (remdups (rev xs))"

text \<open>\<open>exerciseScores.filter(score => score.id).map(score => score.id)\<close>: the
  identifiers that are present and not the empty string.\<close>

definition currentScoreIds :: "score_row list \<Rightarrow> ident list" where
  "currentScoreIds rows = filter (\<lambda>i. i \<noteq> []) (carried rows)"

definition scoreIdsToDelete :: "ident list \<Rightarrow> score_row list \<Rightarrow> ident list" where
  "scoreIdsToDelete existingScores rows =
     filter (\<lambda>i. i \<notin> set (currentScoreIds rows)) (set_array existingScores)"

definition updateWorkoutLog_try ::
  "user \<Rightarrow> string \<Rightarrow> ident \<Rightarrow> workout \<Rightarrow> exercise_log list \<Rightarrow> string \<Rightarrow> store
     \<Rightarrow> (error + workout_log) \<times> store" where
  "updateWorkoutLog_try u now workoutLogId w logs notes s =
     (let totalScore = calculateTotalScore logs w in
      case update_workout_log
             \<lparr>p_notes = notes, p_score = totalScore, p_total = totalScore,
              p_completed_at = now\<rparr> workoutLogId (u_id u) s of
        (Inl workoutError, s1) \<Rightarrow> (Inl workoutError, s1)
      | (Inr workoutLog, s1) \<Rightarrow>
          (case select_score_ids workoutLogId s1 of
             (Inl fetchError, s2) \<Rightarrow> (Inl fetchError, s2)
           | (Inr existingScores, s2) \<Rightarrow>
               (let rows = exerciseScores (u_id u) workoutLogId logs;
                    toDelete = scoreIdsToDelete existingScores rows
                in case (if toDelete \<noteq> [] then delete_scores toDelete s2 else (Inr (), s2)) of
                     (Inl deleteError, s3) \<Rightarrow> (Inl deleteError, s3)
                   | (Inr _, s3) \<Rightarrow>
                       (case upsert_scores rows s3 of
                          (Inl upsertError, s4) \<Rightarrow> (Inl upsertError, s4)
                        | (Inr _, s4) \<Rightarrow> (Inr workoutLog, s4)))))"

definition updateWorkoutLog ::
  "hook \<Rightarrow> string \<Rightarrow> ident \<Rightarrow> workout \<Rightarrow> exercise_log list \<Rightarrow> string \<Rightarrow> store
     \<Rightarrow> (error + workout_log) \<times> hook \<times> store" where
  "updateWorkoutLog h now workoutLogId w logs notes s =
     (case hk_user h of
        None \<Rightarrow> (Inl (Error ''User must be logged in to update a workout''), h, s)
      | Some u \<Rightarrow>
          (case updateWorkoutLog_try u now workoutLogId w logs notes s of
             (r, s') \<Rightarrow> (r, h\<lparr>logging := False\<rparr>, s')))"

section \<open>The message board\<close>

text \<open>
  The state of the page \<open>MessageBoard\<close> that \<open>handlePostMessage\<close> reads and writes: the
  messages shown, the text being typed and the error banner.
\<close>

record board =
  b_messages :: "message list"
  newMessage :: js_string
  b_error :: "string option"

text \<open>
  \<open>String.prototype.trim\<close> removes from both ends the code units that ECMAScript
  counts as white space or as line terminators: tab, line feed, vertical tab, form
  feed, carriage return, space, the no-break space U+00A0, U+1680, U+2000 to U+200A,
  the line and paragraph separators U+2028 and U+2029, U+202F, U+205F, U+3000 and the
  byte order mark U+FEFF. All of them are single code units.
\<close>

definition is_space :: "int \<Rightarrow> bool" where
  "is_space c =
     (c \<in> set [0x0009, 0x000A, 0x000B, 0x000C, 0x000D, 0x0020, 0x00A0, 0x1680,
                0x2028, 0x2029, 0x202F, 0x205F, 0x3000, 0xFEFF]
      \<or> (0x2000 \<le> c \<and> c \<le> 0x200A))"

definition trim :: "js_string \<Rightarrow> js_string" where
  "trim str = rev (dropWhile is_space (rev (dropWhile is_space str)))"

text \<open>Both guards return without a value; the \<open>catch\<close> turns a failure of the store
  into the error banner, so the promise is never rejected.\<close>

definition handlePostMessage :: "user option \<Rightarrow> board \<Rightarrow> store \<Rightarrow> (error + unit) \<times> board \<times> store" where
  "handlePostMessage usr b s =
     (case usr of
        None \<Rightarrow> (Inr (), b, s)
      | Some u \<Rightarrow>
          if trim (newMessage b) = [] then (Inr (), b, s)
          else
            (case insert_message \<lparr>m_content = newMessage b, m_profile_id = u_id u\<rparr> s of
               (Inl err, s') \<Rightarrow>
                 (Inr (), b\<lparr>b_error := Some ''Failed to post message. Please try again later.''\<rparr>, s')
             | (Inr data, s') \<Rightarrow>
                 (Inr (), b\<lparr>b_messages := data # b_messages b, newMessage := []\<rparr>, s')))"

section \<open>Reading the outcome of an update\<close>

text \<open>
  The rows of one workout log; the table once the rows that are to go have been
  deleted; the table once a batch has been upserted; and the calls an update issues when
  every one of them succeeds. A call has gone well (\<open>outcome_ok\<close>) when it either
  returned a value, or failed with the error the trace records and changed no table.
\<close>

definition rows_of_log :: "ident \<Rightarrow> exercise_score list \<Rightarrow> exercise_score list" where
  "rows_of_log wid tbl = filter (\<lambda>r. sf_workout_log_id (snd r) = wid) tbl"

definition after_delete :: "ident \<Rightarrow> score_row list \<Rightarrow> exercise_score list \<Rightarrow> exercise_score list" where
  "after_delete wid rows tbl =
     filter (\<lambda>r. fst r \<notin> set (scoreIdsToDelete (map fst (rows_of_log wid tbl)) rows)) tbl"

definition after_upsert :: "score_row list \<Rightarrow> exercise_score list \<Rightarrow> exercise_score list" where
  "after_upsert rows tbl = foldl put tbl (stamp (map fst tbl @ carried rows) rows)"

definition update_calls ::
  "ident \<Rightarrow> string \<Rightarrow> ident \<Rightarrow> workout \<Rightarrow> exercise_log list \<Rightarrow> string \<Rightarrow> exercise_score list
     \<Rightarrow> store_call list" where
  "update_calls uid now wid w logs notes tbl =
     (let rows = exerciseScores uid wid logs;
          toDelete = scoreIdsToDelete (map fst (rows_of_log wid tbl)) rows
      in [UpdateWorkoutLog \<lparr>p_notes = notes, p_score = calculateTotalScore logs w,
                             p_total = calculateTotalScore logs w, p_completed_at = now\<rparr>
            wid uid,
          SelectScoreIds wid]
         @ (if toDelete \<noteq> [] then [DeleteScores toDelete] else [])
         @ [UpsertScores rows])"

definition outcome_ok :: "store_call \<Rightarrow> (error + 'a) \<Rightarrow> store \<Rightarrow> store \<Rightarrow> bool" where
  "outcome_ok c res s s' =
     ((\<exists>x. res = Inr x \<and> trace s' = trace s @ [(c, None)])
      \<or> (\<exists>e. res = Inl (StoreError e) \<and> trace s' = trace s @ [(c, Some e)]
            \<and> workout_logs s' = workout_logs s \<and> exercise_scores s' = exercise_scores s
            \<and> messages s' = messages s))"

text \<open>The identifiers the sets of the logs carry, in the order of \<open>flatMap\<close>.\<close>

definition carried_ids :: "exercise_log list \<Rightarrow> ident list" where
  "carried_ids logs =
     concat (map (\<lambda>ls. case ls_id ls of None \<Rightarrow> [] | Some i \<Rightarrow> [i]) (concat (map el_sets logs)))"


text \<open>
  The calls a run has added to the trace report a failure faithfully when every failed
  call among them is the last one and its error is the result of the run.
\<close>

definition failure_propagates :: "(error + 'a) \<Rightarrow> (store_call \<times> string option) list \<Rightarrow> bool" where
  "failure_propagates res new =
     (\<forall>c e. (c, Some e) \<in> set new \<longrightarrow> res = Inl (StoreError e) \<and> last new = (c, Some e))"

definition reports :: "store \<Rightarrow> (error + 'a) \<times> store \<Rightarrow> bool" where
  "reports s x = (\<exists>new. trace (snd x) = trace s @ new \<and> failure_propagates (fst x) new)"

section \<open>Example data\<close>

definition demo_user :: user where
  "demo_user = \<lparr>u_id = ''u1''\<rparr>"

definition demo_hook :: hook where
  "demo_hook = \<lparr>hk_user = Some demo_user, logging = True\<rparr>"

definition demo_fields :: "int \<Rightarrow> int \<Rightarrow> score_fields" where
  "demo_fields wt r =
     \<lparr>sf_user_id = ''u1'', sf_workout_log_id = ''L1'', sf_exercise_id = ''e1'',
      sf_weight = Some wt, sf_reps = r, sf_distance = None, sf_time = None,
      sf_calories = None\<rparr>"

definition demo_store :: store where
  "demo_store =
     \<lparr>workout_logs =
        [(''L1'', \<lparr>wl_user_id = ''u1'', wl_workout_id = ''w2'', wl_notes = ''first'',
                   wl_score = 0, wl_total = 0, wl_completed_at = ''2024-01-01''\<rparr>)],
      exercise_scores =
        [(''A'', demo_fields 90 5), (''B'', demo_fields 90 4), (''C'', demo_fields 90 3)],
      messages = [], faults = [], trace = []\<rparr>"

text \<open>Rows A and C are kept, B is dropped, and one set is new.\<close>

definition demo_logs :: "exercise_log list" where
  "demo_logs =
     [\<lparr>el_exercise_id = ''e1'',
       el_sets = [(a_set (Some 100) 5 None)\<lparr>ls_id := Some ''A''\<rparr>,
                  (a_set (Some 100) 3 None)\<lparr>ls_id := Some ''C''\<rparr>,
                  a_set (Some 110) 2 None]\<rparr>]"

text \<open>Two sets that carry the same identifier.\<close>

definition dup_logs :: "exercise_log list" where
  "dup_logs =
     [\<lparr>el_exercise_id = ''e1'',
       el_sets = [(a_set (Some 100) 5 None)\<lparr>ls_id := Some ''A''\<rparr>,
                  (a_set (Some 105) 5 None)\<lparr>ls_id := Some ''A''\<rparr>]\<rparr>]"

definition succeeded :: "(error + 'a) \<times> 'b \<Rightarrow> bool" where
  "succeeded x = (case fst x of Inl _ \<Rightarrow> False | Inr _ \<Rightarrow> True)"

text \<open>The first update of the example, and the state it leaves.\<close>

definition demo_first :: "(error + workout_log) \<times> hook \<times> store" where
  "demo_first =
     updateWorkoutLog demo_hook ''2024-02-02'' ''L1'' bench_workout demo_logs ''again'' demo_store"


definition demo_hook1 :: hook where
  "demo_hook1 = \<lparr>hk_user = Some demo_user, logging = False\<rparr>"

definition demo_log1 :: workout_log where
  "demo_log1 =
     (''L1'', \<lparr>wl_user_id = ''u1'', wl_workout_id = ''w2'', wl_notes = ''again'',
               wl_score = 1020, wl_total = 1020, wl_completed_at = ''2024-02-02''\<rparr>)"

definition demo_store1 :: store where
  "demo_store1 =
     \<lparr>workout_logs = [demo_log1],
      exercise_scores =
        [(''A'', demo_fields 100 5), (''C'', demo_fields 100 3), (''##'', demo_fields 110 2)],
      messages = [], faults = [],
      trace =
        [(UpdateWorkoutLog \<lparr>p_notes = ''again'', p_score = 1020, p_total = 1020,
                              p_completed_at = ''2024-02-02''\<rparr> ''L1'' ''u1'', None),
         (SelectScoreIds ''L1'', None),
         (DeleteScores [''B''], None),
         (UpsertScores (exerciseScores ''u1'' ''L1'' demo_logs), None)]\<rparr>"

text \<open>A signed-out hook whose flag is still set, a board with the message \<open>hello\<close>
  typed, and a store whose second call will fail.\<close>

definition signed_out_hook :: hook where
  "signed_out_hook = \<lparr>hk_user = None, logging = True\<rparr>"

definition demo_board :: board where
  "demo_board = \<lparr>b_messages = [], newMessage = [0x68, 0x65, 0x6C, 0x6C, 0x6F], b_error = None\<rparr>"

definition failing_store :: store where
  "failing_store = demo_store\<lparr>faults := [None, Some ''boom'']\<rparr>"

text \<open>The row a new log of the example gets, and a workout to start.\<close>

definition demo_new_log :: workout_log_fields where
  "demo_new_log =
     \<lparr>wl_user_id = ''u1'', wl_workout_id = ''w2'', wl_notes = ''n'', wl_score = 1020,
      wl_total = 1020, wl_completed_at = ''2024-03-03''\<rparr>"

definition start_workout :: workout where
  "start_workout =
     \<lparr>w_id = ''w3'', w_type = ''weight training'',
      workout_exercises =
        Some [(an_exercise ''Squat'')\<lparr>we_sets := 3, we_weight := Some 50, we_reps := 5\<rparr>,
              (an_exercise ''Run'')\<lparr>we_exercise_id := ''e2'', we_sets := 1, we_weight := Some 0,
                 we_distance := Some 400\<rparr>]\<rparr>"

section \<open>The component \<open>ExerciseRecords\<close>\<close>

text \<open>
  The rows \<open>fetchExerciseRecords\<close> works on. The type \<open>ExerciseScore\<close> comes from
  \<open>types/workout\<close>, which is not among the sources; the record has the columns the
  component reads. A date is represented by the number \<open>new Date(date).getTime()\<close>
  yields for it (dates that do not parse are outside the model); the rows of \<open>scores\<close>
  come in the order of the fetch, \<open>created_at\<close> descending.
\<close>

record score =
  sc_id :: ident
  sc_exercise_id :: ident
  sc_workout_id :: "ident option"
  sc_created_at :: int
  sc_weight :: "int option"
  sc_reps :: int
  sc_distance :: "int option"
  sc_calories :: "int option"

record exercise =
  e_id :: ident
  e_name :: string

record workout_row =
  wr_id :: ident
  wr_workout_type :: "string option"
  wr_completed_at :: "int option"

record workout_info =
  wi_type :: string
  wi_completed_at :: "int option"

text \<open>\<open>{...score, exercise, workout_type, date}\<close>.\<close>

record enhanced =
  en_score :: score
  en_exercise :: "exercise option"
  en_workout_type :: string
  en_date :: int

text \<open>
  Step 4: \<open>workouts.reduce((acc, workout) => { acc[workout.id] = {...}; return acc }, {})\<close>.
  A read \<open>workoutInfo[id]\<close> of an identifier that was not written may find a property
  every object inherits; such a value has neither \<open>type\<close> nor \<open>completed_at\<close>, so step 5
  treats it like a missing entry.
\<close>

definition workoutInfo :: "workout_row list \<Rightarrow> ident \<Rightarrow> workout_info option" where
  "workoutInfo workouts =
     foldl (\<lambda>acc wk. acc(wr_id wk \<mapsto>
               \<lparr>wi_type = (case wr_workout_type wk of None \<Rightarrow> [] | Some t \<Rightarrow> t),
                wi_completed_at = wr_completed_at wk\<rparr>))
       Map.empty workouts"

text \<open>Step 5.\<close>

definition enhance :: "exercise list \<Rightarrow> (ident \<Rightarrow> workout_info option) \<Rightarrow> score \<Rightarrow> enhanced" where
  "enhance exercises info sc =
     (let wk = (case sc_workout_id sc of
                  None \<Rightarrow> None
                | Some i \<Rightarrow> if i = [] then None else info i)
      in \<lparr>en_score = sc,
          en_exercise = find (\<lambda>ex. e_id ex = sc_exercise_id sc) exercises,
          en_workout_type = (case wk of None \<Rightarrow> [] | Some x \<Rightarrow> wi_type x),
          en_date = (case wk of
                       None \<Rightarrow> sc_created_at sc
                     | Some x \<Rightarrow> (case wi_completed_at x of
                                    None \<Rightarrow> sc_created_at sc
                                  | Some d \<Rightarrow> d))\<rparr>)"

text \<open>
  Step 6. The object \<open>exerciseGroups\<close> is an association list in the order the keys
  were first written; \<open>push_group\<close> is \<open>exerciseGroups[name].push(score)\<close> after the
  group has been created when it was missing.

  The object is created by \<open>{}\<close>, so the read \<open>exerciseGroups[exerciseName]\<close> of a name
  the object does not hold itself goes on to \<open>Object.prototype\<close>. For the names in
  \<open>inherited_keys\<close> it finds a function there (for \<open>__proto__\<close> the prototype object):
  the value is truthy, no group is created, and the value has no \<open>push\<close>, so the call
  throws a \<open>TypeError\<close>. The exception leaves \<open>forEach\<close> and is caught by the \<open>catch\<close> of
  \<open>fetchExerciseRecords\<close>.
\<close>

definition inherited_keys :: "string list" where
  "inherited_keys =
     [''constructor'', ''hasOwnProperty'', ''isPrototypeOf'', ''propertyIsEnumerable'',
      ''toLocaleString'', ''toString'', ''valueOf'', ''__proto__'',
      ''__defineGetter__'', ''__defineSetter__'', ''__lookupGetter__'', ''__lookupSetter__'']"

fun push_group :: "string \<Rightarrow> 'a \<Rightarrow> (string \<times> 'a list) list \<Rightarrow> (string \<times> 'a list) list" where
  "push_group k v [] = [(k, [v])]"
| "push_group k v ((k', vs) # g) =
     (if k = k' then (k', vs @ [v]) # g else (k', vs) # push_group k v g)"

text \<open>The callback of \<open>enhancedScores.forEach\<close>.\<close>

definition group_step :: "(string \<times> enhanced list) list \<Rightarrow> enhanced \<Rightarrow> error + (string \<times> enhanced list) list" where
  "group_step groups sc =
     (case en_exercise sc of
        None \<Rightarrow> Inr groups
      | Some ex \<Rightarrow>
          if e_name ex = [] then Inr groups
          else if map_of groups (e_name ex) = None \<and> e_name ex \<in> set inherited_keys
            then Inl (TypeError ''exerciseGroups[exerciseName].push is not a function'')
          else Inr (push_group (e_name ex) sc groups))"

text \<open>\<open>forEach\<close> calls the callback on the scores in order and ends at the first
  exception.\<close>

fun group_each :: "(string \<times> enhanced list) list \<Rightarrow> enhanced list \<Rightarrow> error + (string \<times> enhanced list) list" where
  "group_each groups [] = Inr groups"
| "group_each groups (sc # scs) =
     (case group_step groups sc of
        Inl e \<Rightarrow> Inl e
      | Inr groups' \<Rightarrow> group_each groups' scs)"

definition exerciseGroups :: "enhanced list \<Rightarrow> error + (string \<times> enhanced list) list" where
  "exerciseGroups enhancedScores = group_each [] enhancedScores"

text \<open>
  \<open>Object.entries\<close> lists the keys that are array indices first, in ascending numeric
  order, and the other keys after them in the order they were written.
\<close>

definition is_digit :: "char \<Rightarrow> bool" where
  "is_digit c = (48 \<le> (of_char c :: int) \<and> (of_char c :: int) \<le> 57)"

definition key_value :: "string \<Rightarrow> int" where
  "key_value k = foldl (\<lambda>n c. 10 * n + (of_char c - 48)) 0 k"

definition is_index_key :: "string \<Rightarrow> bool" where
  "is_index_key k =
     (k \<noteq> [] \<and> list_all is_digit k \<and> (k = ''0'' \<or> hd k \<noteq> CHR ''0'')
      \<and> length k \<le> 10 \<and> key_value k < 4294967295)"

definition object_entries :: "(string \<times> 'a) list \<Rightarrow> (string \<times> 'a) list" where
  "object_entries kvs =
     sort_key (\<lambda>kv. key_value (fst kv)) (filter (\<lambda>kv. is_index_key (fst kv)) kvs)
     @ filter (\<lambda>kv. \<not> is_index_key (fst kv)) kvs"

text \<open>Step 7: \<open>scores.reduce((best, current) => m(current) > m(best) ? current : best,
  scores[0])\<close>, with the measure of the branch taken.\<close>

definition best_by :: "(enhanced \<Rightarrow> int) \<Rightarrow> enhanced list \<Rightarrow> enhanced option" where
  "best_by m scores =
     (case scores of
        [] \<Rightarrow> None
      | s0 # _ \<Rightarrow> Some (foldl (\<lambda>best current. if m current > m best then current else best)
                       s0 scores))"

definition bestScore :: "string \<times> enhanced list \<Rightarrow> enhanced option" where
  "bestScore entry =
     (case entry of (exerciseName, scores) \<Rightarrow>
        if exerciseName = ''Run''
          then best_by (\<lambda>x. or_zero (sc_distance (en_score x))) scores
        else if exerciseName = ''Assault Bike''
          then best_by (\<lambda>x. or_zero (sc_calories (en_score x))) scores
        else best_by (\<lambda>x. or_zero (sc_weight (en_score x))) scores)"

definition bestScores :: "(string \<times> enhanced list) list \<Rightarrow> enhanced list" where
  "bestScores groups = List.map_filter bestScore (object_entries groups)"

text \<open>Step 8: the stable sort by date, newest first, and \<open>slice(0, 5)\<close>.\<close>

definition topRecords :: "enhanced list \<Rightarrow> enhanced list" where
  "topRecords best = take 5 (sort_key (\<lambda>r. - en_date r) best)"

text \<open>
  Steps 5 to 8 on the rows fetched. \<open>Inr\<close> carries the list handed to \<open>setRecords\<close>;
  \<open>Inl\<close> carries the message the \<open>catch\<close> hands to \<open>setError\<close>, in which case the
  component keeps the records it started with, none, and renders the message in their
  place. \<open>shown\<close> reads the records the component holds afterwards.
\<close>

definition exerciseRecords :: "score list \<Rightarrow> exercise list \<Rightarrow> workout_row list \<Rightarrow> string + enhanced list" where
  "exerciseRecords scores exercises workouts =
     (if scores = [] then Inr []
      else
        (case exerciseGroups (map (enhance exercises (workoutInfo workouts)) scores) of
           Inl e \<Rightarrow> Inl ''Failed to load exercise records. Please try again later.''
         | Inr groups \<Rightarrow> Inr (topRecords (bestScores groups))))"

definition shown :: "string + enhanced list \<Rightarrow> enhanced list" where
  "shown outcome = (case outcome of Inl message \<Rightarrow> [] | Inr records \<Rightarrow> records)"

text \<open>Six scores as fetched: two exercises resolve, one does not.\<close>

definition rec_score :: "ident \<Rightarrow> ident \<Rightarrow> int \<Rightarrow> int option \<Rightarrow> int option \<Rightarrow> score" where
  "rec_score i ex created wt dist =
     \<lparr>sc_id = i, sc_exercise_id = ex, sc_workout_id = None, sc_created_at = created,
      sc_weight = wt, sc_reps = 5, sc_distance = dist, sc_calories = None\<rparr>"

definition demo_scores :: "score list" where
  "demo_scores =
     [rec_score ''s1'' ''x1'' 50 (Some 100) None,
      rec_score ''s2'' ''x2'' 40 None (Some 400),
      rec_score ''s3'' ''x1'' 30 (Some 120) None,
      rec_score ''s4'' ''x9'' 20 (Some 500) None,
      rec_score ''s5'' ''x1'' 10 (Some 120) None,
      rec_score ''s6'' ''x2'' 5 None (Some 300)]"

definition demo_exercises :: "exercise list" where
  "demo_exercises = [\<lparr>e_id = ''x1'', e_name = ''Bench Press''\<rparr>, \<lparr>e_id = ''x2'', e_name = ''Run''\<rparr>]"

text \<open>The same scores when the third exercise is fetched too and is called
  \<open>constructor\<close>.\<close>

definition named_constructor :: "exercise list" where
  "named_constructor = demo_exercises @ [\<lparr>e_id = ''x9'', e_name = ''constructor''\<rparr>]"

text \<open>
  For the statement: the exercise name a score resolves to (none when the exercise was
  not fetched or has an empty name), and the measure the records of a name are compared
  by, as the specification words it.
\<close>

definition resolved_name :: "enhanced \<Rightarrow> string option" where
  "resolved_name x =
     (case en_exercise x of
        None \<Rightarrow> None
      | Some ex \<Rightarrow> if e_name ex = [] then None else Some (e_name ex))"

definition record_measure :: "string \<Rightarrow> enhanced \<Rightarrow> int" where
  "record_measure n x =
     (if n = ''Run'' then (case sc_distance (en_score x) of None \<Rightarrow> 0 | Some d \<Rightarrow> d)
      else if n = ''Assault Bike'' then (case sc_calories (en_score x) of None \<Rightarrow> 0 | Some c \<Rightarrow> c)
      else (case sc_weight (en_score x) of None \<Rightarrow> 0 | Some v \<Rightarrow> v))"

definition group_of :: "string \<Rightarrow> enhanced list \<Rightarrow> enhanced list" where
  "group_of n xs = filter (\<lambda>x. resolved_name x = Some n) xs"

text \<open>The groups built so far hold, under each name, the scores of that name in
  order, and only names that occur.\<close>

definition grouped :: "(string \<times> enhanced list) list \<Rightarrow> enhanced list \<Rightarrow> bool" where
  "grouped g xs =
     (distinct (map fst g)
      \<and> (\<forall>k. map_of g k = (if group_of k xs = [] then None else Some (group_of k xs))))"

text \<open>
  \<open>first_max m r g\<close>: the record \<open>r\<close> occurs in \<open>g\<close>, everything before it is strictly
  smaller and nothing after it is larger. A record is \<open>selected\<close> when it is the first
  maximum of the group of its name.
\<close>

definition first_max :: "(enhanced \<Rightarrow> int) \<Rightarrow> enhanced \<Rightarrow> enhanced list \<Rightarrow> bool" where
  "first_max m r g =
     (\<exists>ys zs. g = ys @ r # zs \<and> (\<forall>y \<in> set ys. m y < m r) \<and> (\<forall>z \<in> set zs. m z \<le> m r))"

definition selected :: "enhanced list \<Rightarrow> enhanced \<Rightarrow> bool" where
  "selected en r =
     (\<exists>n. resolved_name r = Some n \<and> first_max (record_measure n) r (group_of n en))"

text \<open>The records shown for the example.\<close>

definition demo_records :: "enhanced list" where
  "demo_records = shown (exerciseRecords demo_scores demo_exercises [])"

definition demo_enhanced :: "enhanced list" where
  "demo_enhanced = map (enhance demo_exercises (workoutInfo [])) demo_scores"

section \<open>Properties of the score calculator\<close>

lemma or_zero_eq: "or_zero x = (case x of None \<Rightarrow> 0 | Some v \<Rightarrow> v)"
  by (simp add: or_zero_def split: option.split)

lemma foldl_plus_sum_list: "foldl (\<lambda>t s. t + f s) a xs = (a::int) + sum_list (map f xs)"
  by (induction xs arbitrary: a) simp_all

lemma score_step_contribution:
  "score_step w tot (n, log) = tot + spec_contribution w n log"
  by (simp add: score_step_def spec_contribution_def run_branch_def assault_bike_branch_def
      weight_training_branch_def default_branch_def foldl_plus_sum_list or_zero_eq
      split: option.split)

lemma foldl_score_step:
  "foldl (score_step w) a ils = a + sum_list (map (\<lambda>(n, log). spec_contribution w n log) ils)"
proof (induction ils arbitrary: a)
  case Nil
  show ?case by simp
next
  case (Cons il ils)
  obtain n log where il: "il = (n, log)" by (cases il)
  show ?case by (simp add: Cons.IH il score_step_contribution)
qed


text \<open>
  C5. The default branch and the weight-training branch are the same function, for
  every running total and log; hence the declared type of the workout never changes the
  score of any logs and workout.
\<close>

theorem default_branch_is_weight_training:
  "default_branch = weight_training_branch
   \<and> calculateTotalScore logs (w\<lparr>w_type := t\<rparr>) = calculateTotalScore logs w"
proof -
  have eq: "default_branch = weight_training_branch"
    by (rule ext, rule ext) (simp add: default_branch_def weight_training_branch_def)
  have "\<And>n log. spec_contribution (w\<lparr>w_type := t\<rparr>) n log = spec_contribution w n log"
    by (simp add: spec_contribution_def exercise_at_def)
  then have "calculateTotalScore logs (w\<lparr>w_type := t\<rparr>) = calculateTotalScore logs w"
    by (simp add: calculateTotalScore_def foldl_score_step)
  with eq show ?thesis by simp
qed

section \<open>Properties of the record store\<close>

lemma maxlen_ge: "i \<in> set used \<Longrightarrow> length i \<le> maxlen used"
  by (induction used) (auto simp: maxlen_def)

lemma fresh_id_fresh: "fresh_id used \<notin> set used"
proof
  assume "fresh_id used \<in> set used"
  then have "length (fresh_id used) \<le> maxlen used" by (rule maxlen_ge)
  then show False by (simp add: fresh_id_def)
qed

lemma fresh_id_nonempty: "fresh_id used \<noteq> []"
  by (simp add: fresh_id_def)

lemma carried_simps [simp]:
  "carried [] = []"
  "carried ((Some i, f) # rows) = i # carried rows"
  "carried ((None, f) # rows) = carried rows"
  by (simp_all add: carried_def)

lemma stamp_snd: "map snd (stamp used rows) = map snd rows"
  by (induction used rows rule: stamp.induct) simp_all

lemma stamp_length: "length (stamp used rows) = length rows"
  by (induction used rows rule: stamp.induct) simp_all

lemma stamp_keeps_ids:
  "n < length rows \<Longrightarrow> fst (rows ! n) = Some i \<Longrightarrow> fst (stamp used rows ! n) = i"
proof (induction used rows arbitrary: n rule: stamp.induct)
  case (1 used)
  then show ?case by simp
next
  case (2 used j f rows)
  then show ?case by (cases n) auto
next
  case (3 used f rows)
  then show ?case by (cases n) auto
qed

lemma stamp_ids_origin:
  "i \<in> set (map fst (stamp used rows)) \<Longrightarrow> i \<in> set (carried rows) \<or> i \<notin> set used"
proof (induction used rows rule: stamp.induct)
  case (1 used)
  then show ?case by simp
next
  case (2 used j f rows)
  then show ?case by auto
next
  case (3 used f rows)
  then show ?case using fresh_id_fresh [of used] by auto
qed

lemma stamp_distinct:
  "distinct (carried rows) \<Longrightarrow> set (carried rows) \<subseteq> set used
     \<Longrightarrow> distinct (map fst (stamp used rows))"
proof (induction used rows rule: stamp.induct)
  case (1 used)
  then show ?case by simp
next
  case (2 used j f rows)
  have "j \<notin> set (map fst (stamp used rows))"
  proof
    assume "j \<in> set (map fst (stamp used rows))"
    then have "j \<in> set (carried rows) \<or> j \<notin> set used" by (rule stamp_ids_origin)
    with 2 show False by auto
  qed
  with 2 show ?case by auto
next
  case (3 used f rows)
  have "fresh_id used \<notin> set (map fst (stamp (fresh_id used # used) rows))"
  proof
    assume "fresh_id used \<in> set (map fst (stamp (fresh_id used # used) rows))"
    then have "fresh_id used \<in> set (carried rows) \<or> fresh_id used \<notin> set (fresh_id used # used)"
      by (rule stamp_ids_origin)
    with 3 fresh_id_fresh [of used] show False by auto
  qed
  with 3 show ?case by auto
qed

lemma stamp_carried_subset: "set (carried rows) \<subseteq> set (map fst (stamp used rows))"
  by (induction used rows rule: stamp.induct) auto


lemma set_put: "set (put tbl r) = {x \<in> set tbl. fst x \<noteq> fst r} \<union> {r}"
proof (cases "fst r \<in> set (map fst tbl)")
  case True
  then obtain y where y: "y \<in> set tbl" "fst y = fst r" by auto
  have "set (map (\<lambda>x. if fst x = fst r then r else x) tbl)
      = {x \<in> set tbl. fst x \<noteq> fst r} \<union> {r}"
    using y by (auto simp: image_iff)
  with True show ?thesis by (simp add: put_def)
next
  case False
  then have "\<forall>x \<in> set tbl. fst x \<noteq> fst r" by (metis image_eqI list.set_map)
  then have "{x \<in> set tbl. fst x \<noteq> fst r} = set tbl" by blast
  with False show ?thesis by (simp add: put_def)
qed

lemma ids_put:
  "map fst (put tbl r)
     = (if fst r \<in> set (map fst tbl) then map fst tbl else map fst tbl @ [fst r])"
  by (induction tbl) (auto simp: put_def)

lemma distinct_put: "distinct (map fst tbl) \<Longrightarrow> distinct (map fst (put tbl r))"
  by (simp add: ids_put)

lemma distinct_foldl_put:
  "distinct (map fst tbl) \<Longrightarrow> distinct (map fst (foldl put tbl rs))"
  by (induction rs arbitrary: tbl) (simp_all add: distinct_put)

lemma set_foldl_put:
  "distinct (map fst rs)
     \<Longrightarrow> set (foldl put tbl rs) = {x \<in> set tbl. fst x \<notin> fst ` set rs} \<union> set rs"
proof (induction rs arbitrary: tbl)
  case Nil
  then show ?case by simp
next
  case (Cons r rs)
  then have "set (foldl put (put tbl r) rs)
      = {x \<in> set (put tbl r). fst x \<notin> fst ` set rs} \<union> set rs" by simp
  with Cons.prems show ?case by (auto simp: set_put)
qed

lemma insert_workout_log_outcome:
  "insert_workout_log f s = (res, s') \<Longrightarrow> outcome_ok (InsertWorkoutLog f) res s s'"
  by (auto simp: insert_workout_log_def outcome_ok_def issued_def Let_def split: option.splits)

lemma update_workout_log_outcome:
  "update_workout_log p wid uid s = (res, s') \<Longrightarrow> outcome_ok (UpdateWorkoutLog p wid uid) res s s'"
  by (auto simp: update_workout_log_def outcome_ok_def issued_def Let_def
      split: option.splits list.splits)

lemma select_score_ids_outcome:
  "select_score_ids wid s = (res, s') \<Longrightarrow> outcome_ok (SelectScoreIds wid) res s s'"
  by (auto simp: select_score_ids_def outcome_ok_def issued_def split: option.splits)

lemma delete_scores_outcome:
  "delete_scores ids s = (res, s') \<Longrightarrow> outcome_ok (DeleteScores ids) res s s'"
  by (auto simp: delete_scores_def outcome_ok_def issued_def split: option.splits)

lemma insert_scores_outcome:
  "insert_scores rows s = (res, s') \<Longrightarrow> outcome_ok (InsertScores rows) res s s'"
  by (auto simp: insert_scores_def outcome_ok_def issued_def split: option.splits)

lemma upsert_scores_outcome:
  "upsert_scores rows s = (res, s') \<Longrightarrow> outcome_ok (UpsertScores rows) res s s'"
  by (auto simp: upsert_scores_def outcome_ok_def issued_def split: option.splits if_splits)

lemma update_workout_log_Inr:
  "update_workout_log p wid uid s = (Inr r, s')
     \<Longrightarrow> exercise_scores s' = exercise_scores s \<and> trace s' = trace s @ [(UpdateWorkoutLog p wid uid, None)]
         \<and> fst r = wid"
  by (auto simp: update_workout_log_def issued_def Let_def split: option.splits list.splits)

lemma select_score_ids_Inr:
  "select_score_ids wid s = (Inr ids, s')
     \<Longrightarrow> exercise_scores s' = exercise_scores s \<and> workout_logs s' = workout_logs s
         \<and> trace s' = trace s @ [(SelectScoreIds wid, None)]
         \<and> ids = map fst (filter (\<lambda>r. sf_workout_log_id (snd r) = wid) (exercise_scores s))"
  by (auto simp: select_score_ids_def issued_def split: option.splits)

lemma delete_scores_Inr:
  "delete_scores ids s = (Inr x, s')
     \<Longrightarrow> exercise_scores s' = filter (\<lambda>r. fst r \<notin> set ids) (exercise_scores s)
         \<and> workout_logs s' = workout_logs s
         \<and> trace s' = trace s @ [(DeleteScores ids, None)]"
  by (auto simp: delete_scores_def issued_def split: option.splits)

lemma upsert_scores_Inr:
  "upsert_scores rows s = (Inr x, s')
     \<Longrightarrow> exercise_scores s'
           = foldl put (exercise_scores s) (stamp (map fst (exercise_scores s) @ carried rows) rows)
         \<and> workout_logs s' = workout_logs s
         \<and> trace s' = trace s @ [(UpsertScores rows, None)]"
  by (auto simp: upsert_scores_def issued_def split: option.splits if_splits)

lemma updateWorkoutLog_try_Inr:
  assumes "updateWorkoutLog_try u now wid w logs notes s = (Inr r, s')"
  shows "exercise_scores s'
           = after_upsert (exerciseScores (u_id u) wid logs)
               (after_delete wid (exerciseScores (u_id u) wid logs) (exercise_scores s))"
    and "trace s' = trace s
           @ map (\<lambda>c. (c, None)) (update_calls (u_id u) now wid w logs notes (exercise_scores s))"
proof -
  let ?rows = "exerciseScores (u_id u) wid logs"
  let ?p = "\<lparr>p_notes = notes, p_score = calculateTotalScore logs w,
             p_total = calculateTotalScore logs w, p_completed_at = now\<rparr>"
  obtain r1 s1 where a1: "update_workout_log ?p wid (u_id u) s = (r1, s1)" by force
  from assms a1 obtain wl where r1: "r1 = Inr wl"
    by (cases r1) (auto simp: updateWorkoutLog_try_def Let_def)
  obtain r2 s2 where a2: "select_score_ids wid s1 = (r2, s2)" by force
  from assms a1 r1 a2 obtain existing where r2: "r2 = Inr existing"
    by (cases r2) (auto simp: updateWorkoutLog_try_def Let_def)
  let ?del = "scoreIdsToDelete existing ?rows"
  obtain r3 s3 where a3: "(if ?del \<noteq> [] then delete_scores ?del s2 else (Inr (), s2)) = (r3, s3)"
    by force
  from assms a1 r1 a2 r2 a3 obtain x3 where r3: "r3 = Inr x3"
    by (cases r3) (auto simp: updateWorkoutLog_try_def Let_def)
  obtain r4 s4 where a4: "upsert_scores ?rows s3 = (r4, s4)" by force
  from assms a1 r1 a2 r2 a3 r3 a4 obtain x4 where r4: "r4 = Inr x4" and s4: "s4 = s'"
    by (cases r4) (auto simp: updateWorkoutLog_try_def Let_def)
  note f1 = update_workout_log_Inr [OF a1 [unfolded r1]]
  note f2 = select_score_ids_Inr [OF a2 [unfolded r2]]
  have ex: "existing = map fst (rows_of_log wid (exercise_scores s))"
    using f1 f2 by (simp add: rows_of_log_def)
  have f3: "exercise_scores s3 = after_delete wid ?rows (exercise_scores s)
      \<and> trace s3 = trace s2 @ (if ?del \<noteq> [] then [(DeleteScores ?del, None)] else [])"
  proof (cases "?del = []")
    case True
    with a3 r3 have "s3 = s2" by simp
    with True f1 f2 ex show ?thesis by (simp add: after_delete_def)
  next
    case False
    with a3 r3 have "delete_scores ?del s2 = (Inr x3, s3)" by simp
    from delete_scores_Inr [OF this] False f1 f2 ex show ?thesis
      by (simp add: after_delete_def)
  qed
  note f4 = upsert_scores_Inr [OF a4 [unfolded r4 s4]]
  from f4 f3 show "exercise_scores s' = after_upsert ?rows (after_delete wid ?rows (exercise_scores s))"
    by (simp add: after_upsert_def)
  from f1 f2 f3 f4 ex
  show "trace s' = trace s
      @ map (\<lambda>c. (c, None)) (update_calls (u_id u) now wid w logs notes (exercise_scores s))"
    by (simp add: update_calls_def Let_def)
qed

lemma set_set_array: "set (set_array xs) = set xs"
  by (simp add: set_array_def)

lemma set_scoreIdsToDelete:
  "set (scoreIdsToDelete existing rows) = set existing - set (currentScoreIds rows)"
  by (auto simp: scoreIdsToDelete_def set_set_array)

lemma currentScoreIds_subset: "set (currentScoreIds rows) \<subseteq> set (carried rows)"
  by (auto simp: currentScoreIds_def)

lemma distinct_after_delete:
  "distinct (map fst tbl) \<Longrightarrow> distinct (map fst (after_delete wid rows tbl))"
  by (simp add: after_delete_def distinct_map_filter)

lemma kept_rows_are_carried:
  assumes "x \<in> set (after_delete wid rows tbl)" and "sf_workout_log_id (snd x) = wid"
  shows "fst x \<in> set (carried rows)"
proof -
  from assms have "fst x \<in> set (map fst (rows_of_log wid tbl))"
    by (auto simp: after_delete_def rows_of_log_def)
  moreover from assms(1)
  have "fst x \<notin> set (scoreIdsToDelete (map fst (rows_of_log wid tbl)) rows)"
    by (simp add: after_delete_def)
  ultimately have "fst x \<in> set (currentScoreIds rows)"
    by (simp add: set_scoreIdsToDelete)
  with currentScoreIds_subset show ?thesis by blast
qed

lemma stamped_fields:
  "y \<in> set (stamp used rows) \<Longrightarrow> snd y \<in> snd ` set rows"
proof -
  assume "y \<in> set (stamp used rows)"
  then have "snd y \<in> set (map snd (stamp used rows))" by simp
  then show ?thesis by (simp add: stamp_snd)
qed

lemma reconciled_keyed:
  "distinct (map fst tbl) \<Longrightarrow> distinct (map fst (after_upsert rows (after_delete wid rows tbl)))"
  by (simp add: after_upsert_def distinct_foldl_put distinct_after_delete)

lemma reconciled_rows:
  assumes tbl: "distinct (map fst tbl)"
    and rows: "distinct (carried rows)"
    and wid: "\<forall>r \<in> set rows. sf_workout_log_id (snd r) = wid"
  shows "set (rows_of_log wid (after_upsert rows (after_delete wid rows tbl)))
           = set (stamp (map fst (after_delete wid rows tbl) @ carried rows) rows)"
    and "distinct (map fst (stamp (map fst (after_delete wid rows tbl) @ carried rows) rows))"
proof -
  let ?tbl1 = "after_delete wid rows tbl"
  let ?S = "stamp (map fst ?tbl1 @ carried rows) rows"
  have d1: "distinct (map fst ?tbl1)" using tbl by (rule distinct_after_delete)
  show dS: "distinct (map fst ?S)" using rows by (rule stamp_distinct) simp
  have all: "set (after_upsert rows ?tbl1) = {x \<in> set ?tbl1. fst x \<notin> fst ` set ?S} \<union> set ?S"
    using dS by (simp add: after_upsert_def set_foldl_put)
  have S_wid: "sf_workout_log_id (snd y) = wid" if "y \<in> set ?S" for y
  proof -
    from that have "snd y \<in> snd ` set rows" by (rule stamped_fields)
    with wid show ?thesis by auto
  qed
  have none_left: "fst x \<in> fst ` set ?S"
    if "x \<in> set ?tbl1" and "sf_workout_log_id (snd x) = wid" for x
  proof -
    from that have "fst x \<in> set (carried rows)" by (rule kept_rows_are_carried)
    with stamp_carried_subset [of rows "map fst ?tbl1 @ carried rows"] show ?thesis by auto
  qed
  show "set (rows_of_log wid (after_upsert rows ?tbl1)) = set ?S"
  proof
    show "set (rows_of_log wid (after_upsert rows ?tbl1)) \<subseteq> set ?S"
      using all none_left by (auto simp: rows_of_log_def)
    show "set ?S \<subseteq> set (rows_of_log wid (after_upsert rows ?tbl1))"
      using all S_wid by (auto simp: rows_of_log_def)
  qed
qed

lemma exerciseScores_snd: "map snd (exerciseScores uid wid logs) = new_scores uid wid logs"
  by (simp add: exerciseScores_def new_scores_def map_concat comp_def)

lemma exerciseScores_fst: "map fst (exerciseScores uid wid logs) = map ls_id (concat (map el_sets logs))"
  by (simp add: exerciseScores_def map_concat comp_def)

lemma exerciseScores_wid:
  "r \<in> set (exerciseScores uid wid logs) \<Longrightarrow> sf_workout_log_id (snd r) = wid"
  by (auto simp: exerciseScores_def fields_of_def)

lemma succeeded_Inr: "succeeded x \<Longrightarrow> \<exists>r. x = (Inr r, fst (snd x), snd (snd x))"
  by (cases x) (auto simp: succeeded_def split: sum.splits)

lemma demo_first_eq:
  "updateWorkoutLog demo_hook ''2024-02-02'' ''L1'' bench_workout demo_logs ''again'' demo_store
     = (Inr demo_log1, demo_hook1, demo_store1)"
  by code_simp

lemma new_scores_explicit:
  "new_scores uid wid logs
     = concat (map (\<lambda>log. map (\<lambda>ls.
         \<lparr>sf_user_id = uid, sf_workout_log_id = wid, sf_exercise_id = el_exercise_id log,
          sf_weight = ls_weight ls, sf_reps = ls_reps ls, sf_distance = ls_distance ls,
          sf_time = ls_time ls, sf_calories = ls_calories ls\<rparr>) (el_sets log)) logs)"
  by (simp add: new_scores_def fields_of_def)

lemma carried_exerciseScores: "carried (exerciseScores uid wid logs) = carried_ids logs"
  by (simp add: carried_def carried_ids_def exerciseScores_def map_concat comp_def)

text \<open>
  The claim C2 as stated (one row per LoggedSet for every logs) fails when two sets
  carry the same identifier: the update of the example succeeds on two sets that both
  carry \<open>A\<close> and leaves a single row for the workout log.
\<close>

theorem updateWorkoutLog_rows_counterexample:
  "succeeded (updateWorkoutLog demo_hook ''2024-02-02'' ''L1'' bench_workout dup_logs ''again''
      demo_store)
   \<and> length (concat (map el_sets dup_logs)) = 2
   \<and> length (rows_of_log ''L1'' (exercise_scores (snd (snd
        (updateWorkoutLog demo_hook ''2024-02-02'' ''L1'' bench_workout dup_logs ''again''
           demo_store))))) = 1"
proof -
  have "succeeded (updateWorkoutLog demo_hook ''2024-02-02'' ''L1'' bench_workout dup_logs
      ''again'' demo_store)"
    by code_simp
  moreover have "length (concat (map el_sets dup_logs)) = 2"
    by (simp add: dup_logs_def)
  moreover have "length (rows_of_log ''L1'' (exercise_scores (snd (snd
        (updateWorkoutLog demo_hook ''2024-02-02'' ''L1'' bench_workout dup_logs ''again''
           demo_store))))) = 1"
    by code_simp
  ultimately show ?thesis by (intro conjI)
qed

text \<open>
  C2 (amended). Let no two sets of the logs carry the same identifier. When an update
  completes without error against a store whose rows are keyed by their identifiers,
  the rows of the workout log afterwards are exactly one row per LoggedSet of the logs:
  the n-th set has its row, with the user, the workout log, the exercise of its log and
  the weight, reps, distance, time and calories of the set, under the identifier the set
  carried when it carried one; there is no other row for the log and no identifier
  occurs twice.
\<close>

theorem updateWorkoutLog_rows:
  assumes keyed: "distinct (map fst (exercise_scores s))"
    and user: "hk_user h = Some u"
    and once: "distinct (carried_ids logs)"
    and expected: "expected
        = concat (map (\<lambda>log. map (\<lambda>ls.
            \<lparr>sf_user_id = u_id u, sf_workout_log_id = wid, sf_exercise_id = el_exercise_id log,
             sf_weight = ls_weight ls, sf_reps = ls_reps ls, sf_distance = ls_distance ls,
             sf_time = ls_time ls, sf_calories = ls_calories ls\<rparr>) (el_sets log)) logs)"
    and run: "updateWorkoutLog h now wid w logs notes s = (Inr r, h', s')"
  shows "\<exists>ids. length ids = length (concat (map el_sets logs))
           \<and> distinct ids
           \<and> (\<forall>n < length ids. \<forall>i. ls_id (concat (map el_sets logs) ! n) = Some i \<longrightarrow> ids ! n = i)
           \<and> mset (rows_of_log wid (exercise_scores s')) = mset (zip ids expected)
           \<and> distinct (map fst (exercise_scores s'))"
proof -
  let ?rows = "exerciseScores (u_id u) wid logs"
  let ?tbl1 = "after_delete wid ?rows (exercise_scores s)"
  let ?S = "stamp (map fst ?tbl1 @ carried ?rows) ?rows"
  from run user have body: "updateWorkoutLog_try u now wid w logs notes s = (Inr r, s')"
    by (auto simp: updateWorkoutLog_def split: prod.splits)
  note ok = updateWorkoutLog_try_Inr [OF body]
  have once': "distinct (carried ?rows)" using once by (simp add: carried_exerciseScores)
  have wid: "\<forall>r \<in> set ?rows. sf_workout_log_id (snd r) = wid"
    by (simp add: exerciseScores_wid)
  note rec = reconciled_rows [OF keyed once' wid]
  have exp: "expected = new_scores (u_id u) wid logs"
    by (simp only: expected new_scores_explicit)
  have len: "length (map fst ?S) = length (concat (map el_sets logs))"
    using arg_cong [OF exerciseScores_fst [of "u_id u" wid logs], of length]
    by (simp add: stamp_length)
  have ids: "\<forall>n < length (map fst ?S). \<forall>i.
      ls_id (concat (map el_sets logs) ! n) = Some i \<longrightarrow> map fst ?S ! n = i"
  proof (intro allI impI)
    fix n i
    assume n: "n < length (map fst ?S)" and i: "ls_id (concat (map el_sets logs) ! n) = Some i"
    from n have n': "n < length ?rows" by (simp add: stamp_length)
    have "map fst ?rows ! n = Some i"
      using i n len by (simp add: exerciseScores_fst)
    with n' have "fst (?rows ! n) = Some i" by simp
    with n' have "fst (?S ! n) = i" by (rule stamp_keeps_ids)
    with n show "map fst ?S ! n = i" by simp
  qed
  have "new_scores (u_id u) wid logs = map snd ?S"
    by (simp add: stamp_snd exerciseScores_snd)
  then have zip: "zip (map fst ?S) expected = ?S"
    unfolding exp by (simp only: zip_map_fst_snd)
  have dk: "distinct (map fst (exercise_scores s'))"
    using reconciled_keyed [OF keyed] ok(1) by simp
  then have "distinct (rows_of_log wid (exercise_scores s'))"
    by (simp add: rows_of_log_def distinct_map_filter distinct_map [THEN iffD1, THEN conjunct1])
  moreover have "distinct ?S" using rec(2) by (simp add: distinct_map)
  moreover have "set (rows_of_log wid (exercise_scores s')) = set ?S"
    using rec(1) ok(1) by simp
  ultimately have "mset (rows_of_log wid (exercise_scores s')) = mset ?S"
    by (simp add: set_eq_iff_mset_eq_distinct)
  with zip have "mset (rows_of_log wid (exercise_scores s'))
      = mset (zip (map fst ?S) expected)" by simp
  with len rec(2) ids dk show ?thesis by (intro exI [of _ "map fst ?S"] conjI)
qed

theorem updateWorkoutLog_rows_witness:
  "distinct (map fst (exercise_scores demo_store))
   \<and> hk_user demo_hook = Some demo_user
   \<and> distinct (carried_ids demo_logs)
   \<and> (\<exists>r h' s'.
        updateWorkoutLog demo_hook ''2024-02-02'' ''L1'' bench_workout demo_logs ''again'' demo_store
          = (Inr r, h', s')
        \<and> (\<exists>ids. length ids = 3
              \<and> distinct ids
              \<and> mset (rows_of_log ''L1'' (exercise_scores s'))
                  = mset (zip ids [demo_fields 100 5, demo_fields 100 3, demo_fields 110 2])
              \<and> distinct (map fst (exercise_scores s'))))"
proof -
  have keyed: "distinct (map fst (exercise_scores demo_store))"
    by (simp add: demo_store_def)
  have user: "hk_user demo_hook = Some demo_user"
    by (simp add: demo_hook_def)
  have once: "distinct (carried_ids demo_logs)" by code_simp
  have expected: "[demo_fields 100 5, demo_fields 100 3, demo_fields 110 2]
        = concat (map (\<lambda>log. map (\<lambda>ls.
            \<lparr>sf_user_id = u_id demo_user, sf_workout_log_id = ''L1'',
             sf_exercise_id = el_exercise_id log,
             sf_weight = ls_weight ls, sf_reps = ls_reps ls, sf_distance = ls_distance ls,
             sf_time = ls_time ls, sf_calories = ls_calories ls\<rparr>) (el_sets log)) demo_logs)"
    by (simp add: demo_logs_def demo_fields_def demo_user_def a_set_def)
  have n: "length (concat (map el_sets demo_logs)) = 3" by (simp add: demo_logs_def)
  obtain r h' s' where run:
    "updateWorkoutLog demo_hook ''2024-02-02'' ''L1'' bench_workout demo_logs ''again'' demo_store
       = (Inr r, h', s')"
    using demo_first_eq by blast
  from updateWorkoutLog_rows [OF keyed user once expected run, unfolded n]
  obtain ids where "length ids = 3" "distinct ids"
    "mset (rows_of_log ''L1'' (exercise_scores s'))
       = mset (zip ids [demo_fields 100 5, demo_fields 100 3, demo_fields 110 2])"
    "distinct (map fst (exercise_scores s'))"
    by (elim exE conjE)
  then have "\<exists>ids. length ids = 3
              \<and> distinct ids
              \<and> mset (rows_of_log ''L1'' (exercise_scores s'))
                  = mset (zip ids [demo_fields 100 5, demo_fields 100 3, demo_fields 110 2])
              \<and> distinct (map fst (exercise_scores s'))"
    by (intro exI [of _ ids] conjI)
  with run have "\<exists>r h' s'.
        updateWorkoutLog demo_hook ''2024-02-02'' ''L1'' bench_workout demo_logs ''again'' demo_store
          = (Inr r, h', s')
        \<and> (\<exists>ids. length ids = 3
              \<and> distinct ids
              \<and> mset (rows_of_log ''L1'' (exercise_scores s'))
                  = mset (zip ids [demo_fields 100 5, demo_fields 100 3, demo_fields 110 2])
              \<and> distinct (map fst (exercise_scores s')))"
    by (intro exI [of _ r] exI [of _ h'] exI [of _ s'] conjI)
  with keyed user once show ?thesis by (intro conjI)
qed

lemma currentScoreIds_set:
  "set (currentScoreIds (exerciseScores uid wid logs))
     = {i. i \<noteq> [] \<and> Some i \<in> ls_id ` set (concat (map el_sets logs))}"
proof -
  have "set (carried rows) = {i. Some i \<in> fst ` set rows}" for rows :: "score_row list"
    by (induction rows) (auto simp: carried_def split: option.splits)
  then have "set (currentScoreIds rows) = {i. i \<noteq> [] \<and> Some i \<in> set (map fst rows)}"
    for rows :: "score_row list"
    by (auto simp: currentScoreIds_def)
  moreover have "set (map fst (exerciseScores uid wid logs))
      = ls_id ` set (concat (map el_sets logs))"
    by (simp only: exerciseScores_fst set_map)
  ultimately show ?thesis by simp
qed

lemma stamp_fresh:
  "n < length rows \<Longrightarrow> fst (rows ! n) = None \<Longrightarrow> fst (stamp used rows ! n) \<notin> set used"
proof (induction used rows arbitrary: n rule: stamp.induct)
  case (1 used)
  then show ?case by simp
next
  case (2 used j f rows)
  then show ?case by (cases n) auto
next
  case (3 used f rows)
  show ?case
  proof (cases n)
    case 0
    then show ?thesis by (simp add: fresh_id_fresh)
  next
    case (Suc m)
    with 3 have "fst (stamp (fresh_id used # used) rows ! m) \<notin> set (fresh_id used # used)"
      by simp
    with Suc show ?thesis by simp
  qed
qed

lemma remdups_snoc: "remdups (ys @ [x]) = removeAll x (remdups ys) @ [x]"
  by (induction ys) auto

lemma first_occurrences_Cons:
  "rev (remdups (rev (x # xs))) = x # filter (\<lambda>y. y \<noteq> x) (rev (remdups (rev xs)))"
proof -
  have "removeAll x zs = filter (\<lambda>y. y \<noteq> x) zs" for zs :: "'a list"
    by (induction zs) auto
  then show ?thesis by (simp add: remdups_snoc rev_filter)
qed

lemma ids_foldl_put_any:
  "map fst (foldl put tbl rs)
     = map fst tbl
       @ filter (\<lambda>i. i \<notin> set (map fst tbl)) (rev (remdups (rev (map fst rs))))"
proof (induction rs arbitrary: tbl)
  case Nil
  then show ?case by simp
next
  case (Cons r rs)
  let ?F = "rev (remdups (rev (map fst rs)))"
  have IH: "map fst (foldl put (put tbl r) rs)
      = map fst (put tbl r) @ filter (\<lambda>i. i \<notin> set (map fst (put tbl r))) ?F"
    by (rule Cons.IH)
  have firsts: "rev (remdups (rev (map fst (r # rs)))) = fst r # filter (\<lambda>y. y \<noteq> fst r) ?F"
    using first_occurrences_Cons [of "fst r" "map fst rs"] by simp
  show ?case
  proof (cases "fst r \<in> set (map fst tbl)")
    case True
    then have "filter (\<lambda>i. i \<notin> set (map fst tbl) \<and> i \<noteq> fst r) ?F
        = filter (\<lambda>i. i \<notin> set (map fst tbl)) ?F"
      by (intro filter_cong refl) blast
    with IH True show ?thesis
      unfolding firsts by (simp add: ids_put conj_commute)
  next
    case False
    with IH show ?thesis
      unfolding firsts by (simp add: ids_put conj_commute)
  qed
qed

lemma foldl_put_keeps:
  "r \<in> set tbl \<Longrightarrow> fst r \<notin> fst ` set rs \<Longrightarrow> r \<in> set (foldl put tbl rs)"
proof (induction rs arbitrary: tbl)
  case Nil
  then show ?case by simp
next
  case (Cons x rs)
  from Cons.prems have "fst x \<noteq> fst r" by auto
  with Cons.prems(1) have "r \<in> set (put tbl x)" by (simp add: set_put)
  moreover from Cons.prems have "fst r \<notin> fst ` set rs" by simp
  ultimately have "r \<in> set (foldl put (put tbl x) rs)" by (rule Cons.IH)
  then show ?case by simp
qed

lemma foldl_put_last:
  "n < length rs \<Longrightarrow> \<forall>m < length rs. n < m \<longrightarrow> fst (rs ! m) \<noteq> fst (rs ! n)
     \<Longrightarrow> rs ! n \<in> set (foldl put tbl rs)"
proof (induction rs arbitrary: tbl n)
  case Nil
  then show ?case by simp
next
  case (Cons x rs)
  show ?case
  proof (cases n)
    case 0
    have "fst x \<notin> fst ` set rs"
    proof
      assume "fst x \<in> fst ` set rs"
      then obtain m where m: "m < length rs" "fst (rs ! m) = fst x"
        by (auto simp: in_set_conv_nth)
      with Cons.prems(2) [rule_format, of "Suc m"] 0 show False by simp
    qed
    moreover have "x \<in> set (put tbl x)" by (simp add: set_put)
    ultimately have "x \<in> set (foldl put (put tbl x) rs)" by (intro foldl_put_keeps)
    with 0 show ?thesis by simp
  next
    case (Suc k)
    with Cons.prems(1) have k: "k < length rs" by simp
    have "\<forall>m < length rs. k < m \<longrightarrow> fst (rs ! m) \<noteq> fst (rs ! k)"
    proof (intro allI impI)
      fix m assume "m < length rs" "k < m"
      with Cons.prems(2) [rule_format, of "Suc m"] Suc show "fst (rs ! m) \<noteq> fst (rs ! k)"
        by simp
    qed
    from Cons.IH [OF k this, of "put tbl x"] Suc show ?thesis by simp
  qed
qed

lemma fresh_id_not_stamped:
  assumes "set (carried rows) \<subseteq> set used"
  shows "fresh_id used \<notin> set (map fst (stamp (fresh_id used # used) rows))"
proof
  assume "fresh_id used \<in> set (map fst (stamp (fresh_id used # used) rows))"
  then have "fresh_id used \<in> set (carried rows) \<or> fresh_id used \<notin> set (fresh_id used # used)"
    by (rule stamp_ids_origin)
  with assms fresh_id_fresh [of used] show False by auto
qed

lemma stamp_later_differs:
  "set (carried rows) \<subseteq> set used \<Longrightarrow> n < m \<Longrightarrow> m < length rows
     \<Longrightarrow> (case fst (rows ! n) of None \<Rightarrow> True | Some i \<Rightarrow> fst (rows ! m) \<noteq> Some i)
     \<Longrightarrow> fst (stamp used rows ! m) \<noteq> fst (stamp used rows ! n)"
proof (induction used rows arbitrary: n m rule: stamp.induct)
  case (1 used)
  then show ?case by simp
next
  case (2 used j f rows)
  from "2.prems"(2) obtain m' where m: "m = Suc m'" by (cases m) auto
  with "2.prems"(3) have m': "m' < length rows" by simp
  from "2.prems"(1) have sub: "set (carried rows) \<subseteq> set used" and j: "j \<in> set used" by auto
  show ?case
  proof (cases n)
    case 0
    with "2.prems"(4) m have differs: "fst (rows ! m') \<noteq> Some j" by simp
    have "fst (stamp used rows ! m') \<noteq> j"
    proof (cases "fst (rows ! m')")
      case None
      with m' have "fst (stamp used rows ! m') \<notin> set used" by (intro stamp_fresh)
      with j show ?thesis by auto
    next
      case (Some k)
      with m' have "fst (stamp used rows ! m') = k" by (intro stamp_keeps_ids)
      with Some differs show ?thesis by simp
    qed
    with 0 m show ?thesis by simp
  next
    case (Suc n')
    from "2.prems"(2) Suc m have less: "n' < m'" by simp
    from "2.prems"(4) Suc m
    have "case fst (rows ! n') of None \<Rightarrow> True | Some i \<Rightarrow> fst (rows ! m') \<noteq> Some i"
      by (auto split: option.splits)
    with sub less m' have "fst (stamp used rows ! m') \<noteq> fst (stamp used rows ! n')"
      by (rule "2.IH")
    with Suc m show ?thesis by simp
  qed
next
  case (3 used f rows)
  from "3.prems"(2) obtain m' where m: "m = Suc m'" by (cases m) auto
  with "3.prems"(3) have m': "m' < length rows" by simp
  from "3.prems"(1) have sub: "set (carried rows) \<subseteq> set used" by simp
  then have sub': "set (carried rows) \<subseteq> set (fresh_id used # used)" by auto
  show ?case
  proof (cases n)
    case 0
    from m' have "stamp (fresh_id used # used) rows ! m'
        \<in> set (stamp (fresh_id used # used) rows)"
      by (simp add: stamp_length)
    then have "fst (stamp (fresh_id used # used) rows ! m')
        \<in> set (map fst (stamp (fresh_id used # used) rows))"
      by simp
    with fresh_id_not_stamped [OF sub]
    have "fst (stamp (fresh_id used # used) rows ! m') \<noteq> fresh_id used" by metis
    with 0 m show ?thesis by simp
  next
    case (Suc n')
    from "3.prems"(2) Suc m have less: "n' < m'" by simp
    from "3.prems"(4) Suc m
    have "case fst (rows ! n') of None \<Rightarrow> True | Some i \<Rightarrow> fst (rows ! m') \<noteq> Some i"
      by (auto split: option.splits)
    with sub' less m'
    have "fst (stamp (fresh_id used # used) rows ! m')
        \<noteq> fst (stamp (fresh_id used # used) rows ! n')"
      by (rule "3.IH")
    with Suc m show ?thesis by simp
  qed
qed

text \<open>
  C3. On a successful update the identifiers to delete are exactly the existing
  identifiers of the workout log that no supplied set carries (a set carries an
  identifier when its \<open>id\<close> is present and not the empty string, the test the source
  makes); the calls are issued in the order update, select, delete (when there is
  something to delete), upsert; the table afterwards is the upsert of the full row set
  into the table without the deleted rows: the rows that stay keep their places under
  their identifiers and are followed by the identifiers new to the table, each once, in
  the order the batch first names them; a row of the batch is in the table under its
  identifier unless a later row of the batch names the same identifier, and a row
  without an identifier is stored under an identifier the table did not have.
\<close>

theorem updateWorkoutLog_delete_then_upsert:
  assumes user: "hk_user h = Some u"
    and run: "updateWorkoutLog h now wid w logs notes s = (Inr r, h', s')"
    and rows: "rows = exerciseScores (u_id u) wid logs"
    and toDelete: "toDelete = scoreIdsToDelete (map fst (rows_of_log wid (exercise_scores s))) rows"
    and kept: "kept = filter (\<lambda>x. fst x \<notin> set toDelete) (exercise_scores s)"
  shows "set toDelete
           = set (map fst (rows_of_log wid (exercise_scores s)))
             - {i. i \<noteq> [] \<and> Some i \<in> ls_id ` set (concat (map el_sets logs))}
         \<and> trace s' = trace s
             @ [(UpdateWorkoutLog \<lparr>p_notes = notes, p_score = calculateTotalScore logs w,
                    p_total = calculateTotalScore logs w, p_completed_at = now\<rparr> wid (u_id u), None),
                (SelectScoreIds wid, None)]
             @ (if toDelete \<noteq> [] then [(DeleteScores toDelete, None)] else [])
             @ [(UpsertScores rows, None)]
         \<and> exercise_scores s' = after_upsert rows kept
         \<and> map fst (exercise_scores s')
             = map fst kept
               @ filter (\<lambda>i. i \<notin> set (map fst kept))
                   (rev (remdups (rev (map fst (stamp (map fst kept @ carried rows) rows)))))
         \<and> (\<forall>n < length rows. case fst (rows ! n) of
               Some i \<Rightarrow> (\<forall>m < length rows. n < m \<longrightarrow> fst (rows ! m) \<noteq> Some i)
                            \<longrightarrow> (i, snd (rows ! n)) \<in> set (exercise_scores s')
             | None \<Rightarrow> (\<exists>i. i \<notin> set (map fst kept)
                          \<and> (i, snd (rows ! n)) \<in> set (exercise_scores s')))"
proof -
  from run user have body: "updateWorkoutLog_try u now wid w logs notes s = (Inr r, s')"
    by (auto simp: updateWorkoutLog_def split: prod.splits)
  note ok = updateWorkoutLog_try_Inr [OF body]
  let ?S = "stamp (map fst kept @ carried rows) rows"
  have k: "kept = after_delete wid rows (exercise_scores s)"
    by (simp add: kept toDelete after_delete_def)
  have p1: "set toDelete
      = set (map fst (rows_of_log wid (exercise_scores s)))
        - {i. i \<noteq> [] \<and> Some i \<in> ls_id ` set (concat (map el_sets logs))}"
    unfolding toDelete rows set_scoreIdsToDelete currentScoreIds_set ..
  have p2: "trace s' = trace s
      @ [(UpdateWorkoutLog \<lparr>p_notes = notes, p_score = calculateTotalScore logs w,
             p_total = calculateTotalScore logs w, p_completed_at = now\<rparr> wid (u_id u), None),
         (SelectScoreIds wid, None)]
      @ (if toDelete \<noteq> [] then [(DeleteScores toDelete, None)] else [])
      @ [(UpsertScores rows, None)]"
    using ok(2) by (simp add: update_calls_def Let_def rows toDelete)
  have p3: "exercise_scores s' = after_upsert rows kept"
    using ok(1) by (simp add: k rows)
  have p4: "map fst (exercise_scores s')
      = map fst kept
        @ filter (\<lambda>i. i \<notin> set (map fst kept)) (rev (remdups (rev (map fst ?S))))"
    unfolding p3 after_upsert_def by (rule ids_foldl_put_any)
  have sub: "set (carried rows) \<subseteq> set (map fst kept @ carried rows)" by simp
  have p5: "\<forall>n < length rows. case fst (rows ! n) of
               Some i \<Rightarrow> (\<forall>m < length rows. n < m \<longrightarrow> fst (rows ! m) \<noteq> Some i)
                            \<longrightarrow> (i, snd (rows ! n)) \<in> set (exercise_scores s')
             | None \<Rightarrow> (\<exists>i. i \<notin> set (map fst kept) \<and> (i, snd (rows ! n)) \<in> set (exercise_scores s'))"
  proof (intro allI impI)
    fix n assume n: "n < length rows"
    then have nS: "n < length ?S" by (simp add: stamp_length)
    have "map snd ?S ! n = map snd rows ! n" by (simp add: stamp_snd)
    with n nS have snd_eq: "snd (?S ! n) = snd (rows ! n)" by simp
    have stays: "?S ! n \<in> set (exercise_scores s')"
      if last: "\<forall>m < length rows. n < m
          \<longrightarrow> (case fst (rows ! n) of None \<Rightarrow> True | Some i \<Rightarrow> fst (rows ! m) \<noteq> Some i)"
    proof -
      have "\<forall>m < length ?S. n < m \<longrightarrow> fst (?S ! m) \<noteq> fst (?S ! n)"
      proof (intro allI impI)
        fix m assume m: "m < length ?S" "n < m"
        then have m': "m < length rows" by (simp add: stamp_length)
        with last m(2)
        have "case fst (rows ! n) of None \<Rightarrow> True | Some i \<Rightarrow> fst (rows ! m) \<noteq> Some i"
          by blast
        with sub m(2) m' show "fst (?S ! m) \<noteq> fst (?S ! n)" by (rule stamp_later_differs)
      qed
      with nS have "?S ! n \<in> set (foldl put kept ?S)" by (rule foldl_put_last)
      then show ?thesis by (simp add: p3 after_upsert_def)
    qed
    show "case fst (rows ! n) of
               Some i \<Rightarrow> (\<forall>m < length rows. n < m \<longrightarrow> fst (rows ! m) \<noteq> Some i)
                            \<longrightarrow> (i, snd (rows ! n)) \<in> set (exercise_scores s')
             | None \<Rightarrow> (\<exists>i. i \<notin> set (map fst kept) \<and> (i, snd (rows ! n)) \<in> set (exercise_scores s'))"
    proof (cases "fst (rows ! n)")
      case (Some i)
      with n have "fst (?S ! n) = i" by (intro stamp_keeps_ids)
      with snd_eq have eq: "?S ! n = (i, snd (rows ! n))" by (simp add: prod_eq_iff)
      have "(i, snd (rows ! n)) \<in> set (exercise_scores s')"
        if "\<forall>m < length rows. n < m \<longrightarrow> fst (rows ! m) \<noteq> Some i"
        using stays that Some eq by simp
      with Some show ?thesis by simp
    next
      case None
      with n have "fst (?S ! n) \<notin> set (map fst kept @ carried rows)"
        by (intro stamp_fresh)
      then have "fst (?S ! n) \<notin> set (map fst kept)" by simp
      moreover have "?S ! n = (fst (?S ! n), snd (rows ! n))"
        using snd_eq by (simp add: prod_eq_iff)
      then have "(fst (?S ! n), snd (rows ! n)) \<in> set (exercise_scores s')"
        using stays None by simp
      ultimately have "\<exists>i. i \<notin> set (map fst kept) \<and> (i, snd (rows ! n)) \<in> set (exercise_scores s')"
        by (intro exI conjI)
      with None show ?thesis by simp
    qed
  qed
  from p1 p2 p3 p4 p5 show ?thesis by (intro conjI)
qed









theorem updateWorkoutLog_delete_then_upsert_witness:
  "hk_user demo_hook = Some demo_user
   \<and> succeeded demo_first
   \<and> set (scoreIdsToDelete (map fst (rows_of_log ''L1'' (exercise_scores demo_store)))
             (exerciseScores ''u1'' ''L1'' demo_logs)) = {''B''}
   \<and> map fst (trace (snd (snd demo_first)))
       = [UpdateWorkoutLog \<lparr>p_notes = ''again'', p_score = 1020, p_total = 1020,
                             p_completed_at = ''2024-02-02''\<rparr> ''L1'' ''u1'',
          SelectScoreIds ''L1'', DeleteScores [''B''],
          UpsertScores (exerciseScores ''u1'' ''L1'' demo_logs)]
   \<and> map fst (exercise_scores (snd (snd demo_first))) = [''A'', ''C'', ''##'']"
proof -
  have user: "hk_user demo_hook = Some demo_user" by (simp add: demo_hook_def)
  have ok: "succeeded demo_first" unfolding demo_first_def by code_simp
  then obtain r where run: "updateWorkoutLog demo_hook ''2024-02-02'' ''L1'' bench_workout demo_logs
      ''again'' demo_store = (Inr r, fst (snd demo_first), snd (snd demo_first))"
    using succeeded_Inr [of demo_first] by (auto simp: demo_first_def)
  have del: "scoreIdsToDelete (map fst (rows_of_log ''L1'' (exercise_scores demo_store)))
      (exerciseScores ''u1'' ''L1'' demo_logs) = [''B'']"
    by code_simp
  have score: "calculateTotalScore demo_logs bench_workout = 1020" by code_simp
  have kept: "map fst (filter (\<lambda>x. fst x \<notin> set [''B'']) (exercise_scores demo_store)) = [''A'', ''C'']"
    by code_simp
  have new: "map fst (stamp ([''A'', ''C''] @ carried (exerciseScores ''u1'' ''L1'' demo_logs))
      (exerciseScores ''u1'' ''L1'' demo_logs)) = [''A'', ''C'', ''##'']"
    by code_simp
  have uid: "u_id demo_user = ''u1''" by (simp add: demo_user_def)
  note inst = updateWorkoutLog_delete_then_upsert [OF user run refl refl refl, unfolded uid del score]
  from inst have "set [''B'']
      = set (map fst (rows_of_log ''L1'' (exercise_scores demo_store)))
        - {i. i \<noteq> [] \<and> Some i \<in> ls_id ` set (concat (map el_sets demo_logs))}"
    by (rule conjunct1)
  moreover from inst have "trace (snd (snd demo_first)) = trace demo_store
       @ [(UpdateWorkoutLog \<lparr>p_notes = ''again'', p_score = 1020, p_total = 1020,
                             p_completed_at = ''2024-02-02''\<rparr> ''L1'' ''u1'', None),
          (SelectScoreIds ''L1'', None)]
       @ (if [''B''] \<noteq> [] then [(DeleteScores [''B''], None)] else [])
       @ [(UpsertScores (exerciseScores ''u1'' ''L1'' demo_logs), None)]"
    by (elim conjE)
  then have "map fst (trace (snd (snd demo_first)))
       = [UpdateWorkoutLog \<lparr>p_notes = ''again'', p_score = 1020, p_total = 1020,
                             p_completed_at = ''2024-02-02''\<rparr> ''L1'' ''u1'',
          SelectScoreIds ''L1'', DeleteScores [''B''],
          UpsertScores (exerciseScores ''u1'' ''L1'' demo_logs)]"
    by (simp add: demo_store_def)
  moreover
  from inst
  have "map fst (exercise_scores (snd (snd demo_first)))
      = map fst (filter (\<lambda>x. fst x \<notin> set [''B'']) (exercise_scores demo_store))
        @ filter (\<lambda>i. i \<notin> set (map fst (filter (\<lambda>x. fst x \<notin> set [''B''])
                    (exercise_scores demo_store))))
            (rev (remdups (rev (map fst (stamp (map fst (filter (\<lambda>x. fst x \<notin> set [''B''])
                       (exercise_scores demo_store))
                     @ carried (exerciseScores ''u1'' ''L1'' demo_logs))
               (exerciseScores ''u1'' ''L1'' demo_logs))))))"
    by (elim conjE)
  then have "map fst (exercise_scores (snd (snd demo_first))) = [''A'', ''C'', ''##'']"
    unfolding kept new by simp
  ultimately show ?thesis using user ok del by simp
qed


section \<open>Properties of the hook\<close>

lemma propagates_failed: "failure_propagates (Inl (StoreError e)) [(c, Some e)]"
  by (simp add: failure_propagates_def)

lemma propagates_ok: "failure_propagates res [(c, None)]"
  by (simp add: failure_propagates_def)

lemma propagates_Nil: "failure_propagates res []"
  by (simp add: failure_propagates_def)

lemma propagates_Cons:
  "failure_propagates res new \<Longrightarrow> failure_propagates res ((c, None) # new)"
  by (auto simp: failure_propagates_def)

lemma reports_bind:
  assumes op: "outcome_ok c r1 s s1"
    and rest: "\<And>x. r1 = Inr x \<Longrightarrow> reports s1 (k x)"
  shows "reports s (case (r1, s1) of (Inl e, t) \<Rightarrow> (Inl e, t) | (Inr x, t) \<Rightarrow> k x)"
proof (cases r1)
  case (Inl e)
  with op obtain m where "e = StoreError m" "trace s1 = trace s @ [(c, Some m)]"
    by (auto simp: outcome_ok_def)
  with Inl show ?thesis by (auto simp: reports_def propagates_failed)
next
  case (Inr x)
  with op have t1: "trace s1 = trace s @ [(c, None)]" by (auto simp: outcome_ok_def)
  from rest [OF Inr] obtain new where "trace (snd (k x)) = trace s1 @ new"
    "failure_propagates (fst (k x)) new" by (auto simp: reports_def)
  with t1 have "trace (snd (k x)) = trace s @ ((c, None) # new)
      \<and> failure_propagates (fst (k x)) ((c, None) # new)"
    by (simp add: propagates_Cons)
  then have "reports s (k x)" unfolding reports_def by (intro exI)
  with Inr show ?thesis by simp
qed

lemma reports_return: "reports s (Inr x, s)"
  by (simp add: reports_def propagates_Nil)

lemma logWorkout_try_reports: "reports s (logWorkout_try u now w logs notes s)"
proof -
  let ?f = "\<lparr>wl_user_id = u_id u, wl_workout_id = w_id w, wl_notes = notes,
      wl_score = calculateTotalScore logs w, wl_total = calculateTotalScore logs w,
      wl_completed_at = now\<rparr>"
  obtain r1 s1 where a1: "insert_workout_log ?f s = (r1, s1)" by force
  have inner: "reports s1 (case insert_scores (new_scores (u_id u) (fst x) logs) s1 of
      (Inl e, t) \<Rightarrow> (Inl e, t) | (Inr y, t) \<Rightarrow> (Inr x, t))" for x :: workout_log
  proof -
    obtain r2 s2 where a2: "insert_scores (new_scores (u_id u) (fst x) logs) s1 = (r2, s2)"
      by force
    have "reports s1 (case (r2, s2) of (Inl e, t) \<Rightarrow> (Inl e, t) | (Inr y, t) \<Rightarrow> (Inr x, s2))"
      using insert_scores_outcome [OF a2] by (rule reports_bind) (rule reports_return)
    then show ?thesis by (simp add: a2 split: sum.splits)
  qed
  have "reports s (case (r1, s1) of (Inl e, t) \<Rightarrow> (Inl e, t)
      | (Inr x, t) \<Rightarrow> (case insert_scores (new_scores (u_id u) (fst x) logs) s1 of
          (Inl e, t) \<Rightarrow> (Inl e, t) | (Inr y, t) \<Rightarrow> (Inr x, t)))"
    using insert_workout_log_outcome [OF a1] by (rule reports_bind) (rule inner)
  then show ?thesis by (simp add: logWorkout_try_def Let_def a1 split: sum.splits)
qed

lemma updateWorkoutLog_try_reports: "reports s (updateWorkoutLog_try u now wid w logs notes s)"
proof -
  let ?p = "\<lparr>p_notes = notes, p_score = calculateTotalScore logs w,
             p_total = calculateTotalScore logs w, p_completed_at = now\<rparr>"
  let ?rows = "exerciseScores (u_id u) wid logs"
  have step4: "reports s3 (case upsert_scores ?rows s3 of
      (Inl e, t) \<Rightarrow> (Inl e, t) | (Inr y, t) \<Rightarrow> (Inr x, t))" for x :: workout_log and s3
  proof -
    obtain r4 s4 where a4: "upsert_scores ?rows s3 = (r4, s4)" by force
    have "reports s3 (case (r4, s4) of (Inl e, t) \<Rightarrow> (Inl e, t) | (Inr y, t) \<Rightarrow> (Inr x, s4))"
      using upsert_scores_outcome [OF a4] by (rule reports_bind) (rule reports_return)
    then show ?thesis by (simp add: a4 split: sum.splits)
  qed
  have step3: "reports s2 (case (if del \<noteq> [] then delete_scores del s2 else (Inr (), s2)) of
      (Inl e, t) \<Rightarrow> (Inl e, t)
    | (Inr y, t) \<Rightarrow> (case upsert_scores ?rows t of
          (Inl e, t') \<Rightarrow> (Inl e, t') | (Inr y, t') \<Rightarrow> (Inr x, t')))"
    for x :: workout_log and s2 del
  proof (cases "del = []")
    case True
    then show ?thesis by (simp add: step4)
  next
    case False
    obtain r3 s3 where a3: "delete_scores del s2 = (r3, s3)" by force
    have "reports s2 (case (r3, s3) of (Inl e, t) \<Rightarrow> (Inl e, t)
        | (Inr y, t) \<Rightarrow> (case upsert_scores ?rows s3 of
            (Inl e, t') \<Rightarrow> (Inl e, t') | (Inr y, t') \<Rightarrow> (Inr x, t')))"
      using delete_scores_outcome [OF a3] by (rule reports_bind) (rule step4)
    with False show ?thesis by (simp add: a3 split: sum.splits)
  qed
  have step2: "reports s1 (case select_score_ids wid s1 of
      (Inl e, t) \<Rightarrow> (Inl e, t)
    | (Inr existing, t) \<Rightarrow>
        (case (if scoreIdsToDelete existing ?rows \<noteq> []
               then delete_scores (scoreIdsToDelete existing ?rows) t else (Inr (), t)) of
           (Inl e, t') \<Rightarrow> (Inl e, t')
         | (Inr y, t') \<Rightarrow> (case upsert_scores ?rows t' of
              (Inl e, t'') \<Rightarrow> (Inl e, t'') | (Inr y, t'') \<Rightarrow> (Inr x, t''))))"
    for x :: workout_log and s1
  proof -
    obtain r2 s2 where a2: "select_score_ids wid s1 = (r2, s2)" by force
    have "reports s1 (case (r2, s2) of (Inl e, t) \<Rightarrow> (Inl e, t)
      | (Inr existing, t) \<Rightarrow>
        (case (if scoreIdsToDelete existing ?rows \<noteq> []
               then delete_scores (scoreIdsToDelete existing ?rows) s2 else (Inr (), s2)) of
           (Inl e, t') \<Rightarrow> (Inl e, t')
         | (Inr y, t') \<Rightarrow> (case upsert_scores ?rows t' of
              (Inl e, t'') \<Rightarrow> (Inl e, t'') | (Inr y, t'') \<Rightarrow> (Inr x, t''))))"
      using select_score_ids_outcome [OF a2] by (rule reports_bind) (rule step3)
    then show ?thesis by (simp add: a2 split: sum.splits)
  qed
  obtain r1 s1 where a1: "update_workout_log ?p wid (u_id u) s = (r1, s1)" by force
  have "reports s (case (r1, s1) of (Inl e, t) \<Rightarrow> (Inl e, t)
    | (Inr x, t) \<Rightarrow> (case select_score_ids wid s1 of
      (Inl e, t) \<Rightarrow> (Inl e, t)
    | (Inr existing, t) \<Rightarrow>
        (case (if scoreIdsToDelete existing ?rows \<noteq> []
               then delete_scores (scoreIdsToDelete existing ?rows) t else (Inr (), t)) of
           (Inl e, t') \<Rightarrow> (Inl e, t')
         | (Inr y, t') \<Rightarrow> (case upsert_scores ?rows t' of
              (Inl e, t'') \<Rightarrow> (Inl e, t'') | (Inr y, t'') \<Rightarrow> (Inr x, t'')))))"
    using update_workout_log_outcome [OF a1] by (rule reports_bind) (rule step2)
  then show ?thesis
    unfolding updateWorkoutLog_try_def Let_def by (simp add: a1 split: sum.splits)
qed

lemma insert_workout_log_Inr:
  "insert_workout_log f s = (Inr r, s')
     \<Longrightarrow> r = (fresh_id (map fst (workout_logs s)), f)
         \<and> workout_logs s' = workout_logs s @ [r]
         \<and> exercise_scores s' = exercise_scores s
         \<and> trace s' = trace s @ [(InsertWorkoutLog f, None)]"
  by (auto simp: insert_workout_log_def issued_def Let_def split: option.splits)

lemma insert_scores_Inr:
  "insert_scores rows s = (Inr x, s')
     \<Longrightarrow> exercise_scores s'
           = exercise_scores s @ stamp (map fst (exercise_scores s)) (map (\<lambda>f. (None, f)) rows)
         \<and> workout_logs s' = workout_logs s"
  by (auto simp: insert_scores_def issued_def split: option.splits)

lemma carried_all_None: "carried (map (\<lambda>f. (None, f)) rows) = []"
  by (induction rows) simp_all

text \<open>
  C6. With a user signed in, a successful \<open>logWorkout\<close> appends exactly one row to
  \<open>workout_logs\<close>, under an identifier the table did not have, carrying the user, the
  workout, the notes, the computed score in both \<open>score\<close> and \<open>total\<close> and the time of the
  call; and it appends to \<open>exercise_scores\<close> one row per LoggedSet of the logs, under
  fresh, pairwise distinct identifiers: the row of a set has the user, the identifier of
  the new \<open>workout_logs\<close> row, the exercise of its log and the weight, reps, distance, time
  and calories of the set. When the first insert succeeds and the second fails, the
  error of the second is the result and the new \<open>workout_logs\<close> row stays.
\<close>

theorem logWorkout_persists:
  assumes user: "hk_user h = Some u"
    and fields: "f = \<lparr>wl_user_id = u_id u, wl_workout_id = w_id w, wl_notes = notes,
                      wl_score = calculateTotalScore logs w,
                      wl_total = calculateTotalScore logs w, wl_completed_at = now\<rparr>"
  shows "(logWorkout h now w logs notes s = (Inr r, h', s') \<longrightarrow>
            workout_logs s' = workout_logs s @ [r]
            \<and> fst r \<notin> set (map fst (workout_logs s))
            \<and> snd r = f
            \<and> length (exercise_scores s')
                = length (exercise_scores s) + length (concat (map el_sets logs))
            \<and> (\<exists>ids. length ids = length (concat (map el_sets logs))
                  \<and> distinct ids
                  \<and> set ids \<inter> set (map fst (exercise_scores s)) = {}
                  \<and> exercise_scores s'
                      = exercise_scores s
                        @ zip ids
                            (concat (map (\<lambda>log. map (\<lambda>ls.
                            \<lparr>sf_user_id = u_id u, sf_workout_log_id = fst r,
                             sf_exercise_id = el_exercise_id log, sf_weight = ls_weight ls,
                             sf_reps = ls_reps ls, sf_distance = ls_distance ls,
                             sf_time = ls_time ls, sf_calories = ls_calories ls\<rparr>)
                          (el_sets log)) logs))))
         \<and> (faults s = None # Some e # fs \<longrightarrow>
              (\<exists>s'. logWorkout h now w logs notes s
                      = (Inl (StoreError e), h\<lparr>logging := False\<rparr>, s')
                    \<and> workout_logs s'
                        = workout_logs s @ [(fresh_id (map fst (workout_logs s)), f)]
                    \<and> exercise_scores s' = exercise_scores s))"
proof (intro conjI impI)
  assume run: "logWorkout h now w logs notes s = (Inr r, h', s')"
  obtain r1 s1 where a1: "insert_workout_log f s = (r1, s1)" by force
  from run user a1 have r1: "r1 = Inr r"
    by (cases r1) (auto simp: logWorkout_def logWorkout_try_def Let_def fields
        split: prod.splits sum.splits)
  obtain r2 s2 where a2: "insert_scores (new_scores (u_id u) (fst r) logs) s1 = (r2, s2)"
    by force
  from run user a1 r1 a2 obtain x where r2: "r2 = Inr x" and s2: "s2 = s'"
    by (cases r2) (auto simp: logWorkout_def logWorkout_try_def Let_def fields
        split: prod.splits sum.splits)
  note f1 = insert_workout_log_Inr [OF a1 [unfolded r1]]
  note f2 = insert_scores_Inr [OF a2 [unfolded r2 s2]]
  let ?rows = "map (\<lambda>f. (None, f)) (new_scores (u_id u) (fst r) logs) :: score_row list"
  let ?S = "stamp (map fst (exercise_scores s)) ?rows"
  show "workout_logs s' = workout_logs s @ [r]" using f1 f2 by simp
  show "fst r \<notin> set (map fst (workout_logs s))"
    using f1 fresh_id_fresh [of "map fst (workout_logs s)"] by simp
  show "snd r = f" using f1 by simp
  let ?E = "concat (map (\<lambda>log. map (\<lambda>ls.
                            \<lparr>sf_user_id = u_id u, sf_workout_log_id = fst r,
                             sf_exercise_id = el_exercise_id log, sf_weight = ls_weight ls,
                             sf_reps = ls_reps ls, sf_distance = ls_distance ls,
                             sf_time = ls_time ls, sf_calories = ls_calories ls\<rparr>)
                          (el_sets log)) logs)"
  have E: "new_scores (u_id u) (fst r) logs = ?E" by (rule new_scores_explicit)
  have lenE: "length ?E = length (concat (map el_sets logs))"
    by (simp add: length_concat comp_def)
  have len: "length (map fst ?S) = length (concat (map el_sets logs))"
    by (simp add: stamp_length new_scores_def length_concat comp_def)
  have dist: "distinct (map fst ?S)"
    by (rule stamp_distinct) (simp_all add: carried_all_None)
  have fresh: "set (map fst ?S) \<inter> set (map fst (exercise_scores s)) = {}"
  proof -
    have "i \<notin> set (map fst (exercise_scores s))" if "i \<in> set (map fst ?S)" for i
      using stamp_ids_origin [OF that] by (simp add: carried_all_None)
    then show ?thesis by blast
  qed
  have "map snd ?S = new_scores (u_id u) (fst r) logs"
    by (simp add: stamp_snd comp_def)
  then have "zip (map fst ?S) (new_scores (u_id u) (fst r) logs) = ?S"
    by (metis zip_map_fst_snd)
  with f1 f2 have "exercise_scores s'
      = exercise_scores s @ zip (map fst ?S) (new_scores (u_id u) (fst r) logs)"
    by simp
  then have tbl: "exercise_scores s' = exercise_scores s @ zip (map fst ?S) ?E"
    by (simp only: E)
  from tbl len lenE
  show "length (exercise_scores s')
      = length (exercise_scores s) + length (concat (map el_sets logs))"
    by simp
  from len dist fresh tbl
  show "\<exists>ids. length ids = length (concat (map el_sets logs))
          \<and> distinct ids
          \<and> set ids \<inter> set (map fst (exercise_scores s)) = {}
          \<and> exercise_scores s' = exercise_scores s @ zip ids ?E"
    by (intro exI [of _ "map fst ?S"] conjI)
next
  assume faults: "faults s = None # Some e # fs"
  let ?row = "(fresh_id (map fst (workout_logs s)), f)"
  let ?s1 = "issued (InsertWorkoutLog f) None (s\<lparr>workout_logs := workout_logs s @ [?row]\<rparr>)"
  let ?rows = "new_scores (u_id u) (fst ?row) logs"
  let ?s2 = "issued (InsertScores ?rows) (Some e) ?s1"
  have a1: "insert_workout_log f s = (Inr ?row, ?s1)"
    using faults by (simp add: insert_workout_log_def next_fault_def Let_def)
  have a2: "insert_scores ?rows ?s1 = (Inl (StoreError e), ?s2)"
    using faults by (simp add: insert_scores_def next_fault_def issued_def)
  have "logWorkout h now w logs notes s = (Inl (StoreError e), h\<lparr>logging := False\<rparr>, ?s2)"
    using user a1 a2 by (simp add: logWorkout_def logWorkout_try_def Let_def fields [symmetric])
  moreover have "workout_logs ?s2 = workout_logs s @ [?row]" by (simp add: issued_def)
  moreover have "exercise_scores ?s2 = exercise_scores s" by (simp add: issued_def)
  ultimately show "\<exists>s'. logWorkout h now w logs notes s
                      = (Inl (StoreError e), h\<lparr>logging := False\<rparr>, s')
                    \<and> workout_logs s' = workout_logs s @ [?row]
                    \<and> exercise_scores s' = exercise_scores s"
    by (intro exI [of _ ?s2] conjI)
qed

theorem logWorkout_persists_witness:
  "hk_user demo_hook = Some demo_user
   \<and> (\<exists>r h' s'. logWorkout demo_hook ''2024-03-03'' bench_workout demo_logs ''n'' demo_store
          = (Inr r, h', s')
        \<and> workout_logs s' = workout_logs demo_store @ [r]
        \<and> snd r = demo_new_log
        \<and> length (exercise_scores s') = length (exercise_scores demo_store) + 3)
   \<and> faults failing_store = [None, Some ''boom'']
   \<and> (\<exists>s'. logWorkout demo_hook ''2024-03-03'' bench_workout demo_logs ''n'' failing_store
          = (Inl (StoreError ''boom''), demo_hook\<lparr>logging := False\<rparr>, s')
        \<and> workout_logs s'
            = workout_logs failing_store
              @ [(fresh_id (map fst (workout_logs failing_store)), demo_new_log)])"
proof -
  have user: "hk_user demo_hook = Some demo_user" by (simp add: demo_hook_def)
  have fields: "demo_new_log
      = \<lparr>wl_user_id = u_id demo_user, wl_workout_id = w_id bench_workout, wl_notes = ''n'',
         wl_score = calculateTotalScore demo_logs bench_workout,
         wl_total = calculateTotalScore demo_logs bench_workout,
         wl_completed_at = ''2024-03-03''\<rparr>"
    by code_simp
  have "succeeded (logWorkout demo_hook ''2024-03-03'' bench_workout demo_logs ''n'' demo_store)"
    by code_simp
  from succeeded_Inr [OF this] obtain r where run:
    "logWorkout demo_hook ''2024-03-03'' bench_workout demo_logs ''n'' demo_store
     = (Inr r,
        fst (snd (logWorkout demo_hook ''2024-03-03'' bench_workout demo_logs ''n'' demo_store)),
        snd (snd (logWorkout demo_hook ''2024-03-03'' bench_workout demo_logs ''n'' demo_store)))"
    by (rule exE)
  have faults: "faults failing_store = [None, Some ''boom'']"
    by (simp add: failing_store_def)
  have n: "length (concat (map el_sets demo_logs)) = 3" by (simp add: demo_logs_def)
  from logWorkout_persists [OF user fields, THEN conjunct1, rule_format, OF run, unfolded n] run
  have ok: "\<exists>r h' s'. logWorkout demo_hook ''2024-03-03'' bench_workout demo_logs ''n'' demo_store
          = (Inr r, h', s')
        \<and> workout_logs s' = workout_logs demo_store @ [r]
        \<and> snd r = demo_new_log
        \<and> length (exercise_scores s') = length (exercise_scores demo_store) + 3"
    by (intro exI [of _ r]
        exI [of _ "fst (snd (logWorkout demo_hook ''2024-03-03'' bench_workout demo_logs ''n'' demo_store))"]
        exI [of _ "snd (snd (logWorkout demo_hook ''2024-03-03'' bench_workout demo_logs ''n'' demo_store))"])
      (elim conjE, intro conjI)
  from logWorkout_persists [OF user fields, THEN conjunct2, rule_format, OF faults]
  obtain s' where "logWorkout demo_hook ''2024-03-03'' bench_workout demo_logs ''n'' failing_store
          = (Inl (StoreError ''boom''), demo_hook\<lparr>logging := False\<rparr>, s')"
      "workout_logs s'
            = workout_logs failing_store
              @ [(fresh_id (map fst (workout_logs failing_store)), demo_new_log)]"
    by (elim exE conjE)
  then have bad: "\<exists>s'. logWorkout demo_hook ''2024-03-03'' bench_workout demo_logs ''n'' failing_store
          = (Inl (StoreError ''boom''), demo_hook\<lparr>logging := False\<rparr>, s')
        \<and> workout_logs s'
            = workout_logs failing_store
              @ [(fresh_id (map fst (workout_logs failing_store)), demo_new_log)]"
    by (intro exI [of _ s'] conjI)
  from user ok faults bad show ?thesis by (intro conjI)
qed

text \<open>
  The claim C7 as stated (the flag is false after the call whatever the outcome) fails
  when nobody is signed in and the flag is set: the call is rejected and the flag stays
  set.
\<close>

theorem store_failure_propagates_counterexample:
  "fst (logWorkout signed_out_hook ''2024-03-03'' bench_workout demo_logs ''n'' demo_store)
     = Inl (Error ''User must be logged in to log a workout'')
   \<and> logging (fst (snd (logWorkout signed_out_hook ''2024-03-03'' bench_workout demo_logs ''n''
         demo_store)))"
  by (simp add: logWorkout_def signed_out_hook_def)

text \<open>
  C7 (amended). With a user signed in, \<open>logWorkout\<close> and \<open>updateWorkoutLog\<close> end with the
  \<open>logging\<close> flag cleared, and a store call that failed during the run is the last call
  of the run and its error is the result (no retry, no substitution). With nobody
  signed in the guard rejects the call before the \<open>try\<close>: nothing is called and the hook
  state, the flag included, is as it was.
\<close>

theorem store_failure_propagates:
  "(hk_user h = Some u \<longrightarrow>
      \<not> logging (fst (snd (logWorkout h now w logs notes s)))
      \<and> (\<exists>new. trace (snd (snd (logWorkout h now w logs notes s))) = trace s @ new
             \<and> failure_propagates (fst (logWorkout h now w logs notes s)) new)
      \<and> \<not> logging (fst (snd (updateWorkoutLog h now wid w logs notes s)))
      \<and> (\<exists>new. trace (snd (snd (updateWorkoutLog h now wid w logs notes s))) = trace s @ new
             \<and> failure_propagates (fst (updateWorkoutLog h now wid w logs notes s)) new))
   \<and> (hk_user h = None \<longrightarrow>
        snd (logWorkout h now w logs notes s) = (h, s)
        \<and> snd (updateWorkoutLog h now wid w logs notes s) = (h, s))"
proof (intro conjI impI)
  assume user: "hk_user h = Some u"
  obtain r s' where a: "logWorkout_try u now w logs notes s = (r, s')" by force
  with user have l: "logWorkout h now w logs notes s = (r, h\<lparr>logging := False\<rparr>, s')"
    by (simp add: logWorkout_def)
  obtain r2 s2 where b: "updateWorkoutLog_try u now wid w logs notes s = (r2, s2)" by force
  with user have u: "updateWorkoutLog h now wid w logs notes s = (r2, h\<lparr>logging := False\<rparr>, s2)"
    by (simp add: updateWorkoutLog_def)
  show "\<not> logging (fst (snd (logWorkout h now w logs notes s)))" by (simp add: l)
  show "\<not> logging (fst (snd (updateWorkoutLog h now wid w logs notes s)))" by (simp add: u)
  show "\<exists>new. trace (snd (snd (logWorkout h now w logs notes s))) = trace s @ new
             \<and> failure_propagates (fst (logWorkout h now w logs notes s)) new"
    using logWorkout_try_reports [of s u now w logs "notes"] by (simp add: l a reports_def)
  show "\<exists>new. trace (snd (snd (updateWorkoutLog h now wid w logs notes s))) = trace s @ new
             \<and> failure_propagates (fst (updateWorkoutLog h now wid w logs notes s)) new"
    using updateWorkoutLog_try_reports [of s u now wid w logs "notes"] by (simp add: u b reports_def)
next
  assume "hk_user h = None"
  then show "snd (logWorkout h now w logs notes s) = (h, s)" by (simp add: logWorkout_def)
next
  assume "hk_user h = None"
  then show "snd (updateWorkoutLog h now wid w logs notes s) = (h, s)"
    by (simp add: updateWorkoutLog_def)
qed

theorem store_failure_propagates_witness:
  "hk_user demo_hook = Some demo_user
   \<and> \<not> logging (fst (snd (logWorkout demo_hook ''2024-03-03'' bench_workout demo_logs ''n''
           failing_store)))
   \<and> fst (logWorkout demo_hook ''2024-03-03'' bench_workout demo_logs ''n'' failing_store)
       = Inl (StoreError ''boom'')
   \<and> hk_user signed_out_hook = None
   \<and> snd (logWorkout signed_out_hook ''2024-03-03'' bench_workout demo_logs ''n'' demo_store)
       = (signed_out_hook, demo_store)"
proof -
  let ?run = "logWorkout demo_hook ''2024-03-03'' bench_workout demo_logs ''n'' failing_store"
  have user: "hk_user demo_hook = Some demo_user" by (simp add: demo_hook_def)
  have nobody: "hk_user signed_out_hook = None" by (simp add: signed_out_hook_def)
  note inst = store_failure_propagates [of demo_hook demo_user "''2024-03-03''" bench_workout
      demo_logs "''n''" failing_store "''L1''", THEN conjunct1, rule_format, OF user]
  from inst have flag: "\<not> logging (fst (snd ?run))" by (rule conjunct1)
  from inst obtain new where new: "trace (snd (snd ?run)) = trace failing_store @ new"
    and pr: "failure_propagates (fst ?run) new"
    by (elim conjE exE)
  have "trace failing_store = []" by (simp add: failing_store_def demo_store_def)
  moreover have "map snd (trace (snd (snd ?run))) = [None, Some ''boom'']" by code_simp
  ultimately have "Some ''boom'' \<in> snd ` set new" using new by (simp add: image_iff) force
  then obtain c where "(c, Some ''boom'') \<in> set new" by force
  with pr have res: "fst ?run = Inl (StoreError ''boom'')"
    by (simp add: failure_propagates_def)
  from store_failure_propagates [of signed_out_hook demo_user "''2024-03-03''" bench_workout
      demo_logs "''n''" demo_store "''L1''", THEN conjunct2, rule_format, OF nobody]
  have out: "snd (logWorkout signed_out_hook ''2024-03-03'' bench_workout demo_logs ''n'' demo_store)
       = (signed_out_hook, demo_store)"
    by (rule conjunct1)
  from user flag res nobody out show ?thesis by (intro conjI)
qed

text \<open>A message of white space only, here a no-break space, a space, an em space and
  a line feed, is not posted: no store call is issued and the page is unchanged.\<close>

lemma handlePostMessage_blank:
  "newMessage b = [0x00A0, 0x0020, 0x2003, 0x000A]
     \<Longrightarrow> handlePostMessage (Some u) b s = (Inr (), b, s)"
  by (simp add: handlePostMessage_def trim_def is_space_def)

text \<open>
  The claim C8 as stated (posting a message raises an authentication error) fails:
  with nobody signed in \<open>handlePostMessage\<close> returns without an error.
\<close>

theorem authentication_required_counterexample:
  "handlePostMessage None demo_board demo_store = (Inr (), demo_board, demo_store)"
  by (simp add: handlePostMessage_def)

text \<open>
  C8 (amended). With nobody signed in, logging a workout, updating a workout log and
  starting a workout are rejected with their authentication error before any store
  call is issued: the store and the hook state are unchanged. Posting a message issues
  no store call either, and returns without raising.
\<close>

theorem authentication_required:
  assumes "hk_user h = None"
  shows "logWorkout h now w logs notes s
           = (Inl (Error ''User must be logged in to log a workout''), h, s)
         \<and> updateWorkoutLog h now wid w logs notes s
           = (Inl (Error ''User must be logged in to update a workout''), h, s)
         \<and> startWorkoutLogging h w
           = (Inl (Error ''User must be logged in to start a workout''), h)
         \<and> handlePostMessage (hk_user h) b s = (Inr (), b, s)"
  using assms
  by (simp add: logWorkout_def updateWorkoutLog_def startWorkoutLogging_def handlePostMessage_def)

theorem authentication_required_witness:
  "hk_user signed_out_hook = None
   \<and> logWorkout signed_out_hook ''2024-03-03'' bench_workout demo_logs ''n'' demo_store
       = (Inl (Error ''User must be logged in to log a workout''), signed_out_hook, demo_store)
   \<and> updateWorkoutLog signed_out_hook ''2024-03-03'' ''L1'' bench_workout demo_logs ''n'' demo_store
       = (Inl (Error ''User must be logged in to update a workout''), signed_out_hook, demo_store)"
proof -
  have nobody: "hk_user signed_out_hook = None" by (simp add: signed_out_hook_def)
  from authentication_required [OF nobody, of "''2024-03-03''" bench_workout demo_logs "''n''"
      demo_store "''L1''" demo_board]
  have "logWorkout signed_out_hook ''2024-03-03'' bench_workout demo_logs ''n'' demo_store
       = (Inl (Error ''User must be logged in to log a workout''), signed_out_hook, demo_store)"
    and "updateWorkoutLog signed_out_hook ''2024-03-03'' ''L1'' bench_workout demo_logs ''n'' demo_store
       = (Inl (Error ''User must be logged in to update a workout''), signed_out_hook, demo_store)"
    by simp_all
  with nobody show ?thesis by (intro conjI)
qed

text \<open>
  C9. With a user signed in, \<open>startWorkoutLogging\<close> returns one log per entry of the
  exercise sequence, in order, with the entry's \<open>exercise_id\<close> and exactly \<open>sets\<close> sets,
  each with the default weight when it is not zero and 0 otherwise (an absent weight
  gives 0 too) and with reps, distance, time and calories copied from the entry; a
  workout without an exercise sequence gives the empty list.
\<close>

theorem startWorkoutLogging_initial_logs:
  assumes user: "hk_user h = Some u"
  shows "\<exists>logs. startWorkoutLogging h w = (Inr logs, h\<lparr>logging := True\<rparr>)
           \<and> (case workout_exercises w of
                 None \<Rightarrow> logs = []
               | Some es \<Rightarrow>
                   length logs = length es
                   \<and> (\<forall>n < length es.
                         el_exercise_id (logs ! n) = we_exercise_id (es ! n)
                         \<and> length (el_sets (logs ! n)) = we_sets (es ! n)
                         \<and> (\<forall>ls \<in> set (el_sets (logs ! n)).
                               ls_weight ls
                                 = Some (case we_weight (es ! n) of
                                           None \<Rightarrow> 0
                                         | Some v \<Rightarrow> if v \<noteq> 0 then v else 0)
                               \<and> ls_reps ls = we_reps (es ! n)
                               \<and> ls_distance ls = we_distance (es ! n)
                               \<and> ls_time ls = we_time (es ! n)
                               \<and> ls_calories ls = we_calories (es ! n)
                               \<and> ls_id ls = None)))"
proof (cases "workout_exercises w")
  case None
  with user show ?thesis by (simp add: startWorkoutLogging_def)
next
  case (Some es)
  let ?logs = "map (\<lambda>exercise.
      \<lparr>el_exercise_id = we_exercise_id exercise,
       el_sets = replicate (we_sets exercise) (initial_set exercise)\<rparr>) es"
  have run: "startWorkoutLogging h w = (Inr ?logs, h\<lparr>logging := True\<rparr>)"
    using user Some by (simp add: startWorkoutLogging_def)
  have "length ?logs = length es" by simp
  moreover have "\<forall>n < length es.
      el_exercise_id (?logs ! n) = we_exercise_id (es ! n)
      \<and> length (el_sets (?logs ! n)) = we_sets (es ! n)
      \<and> (\<forall>ls \<in> set (el_sets (?logs ! n)).
            ls_weight ls = Some (case we_weight (es ! n) of
                                   None \<Rightarrow> 0 | Some v \<Rightarrow> if v \<noteq> 0 then v else 0)
            \<and> ls_reps ls = we_reps (es ! n)
            \<and> ls_distance ls = we_distance (es ! n)
            \<and> ls_time ls = we_time (es ! n)
            \<and> ls_calories ls = we_calories (es ! n)
            \<and> ls_id ls = None)"
    by (auto simp: initial_set_def initial_weight_def or_zero_def split: option.splits)
  ultimately show ?thesis using run Some by (intro exI [of _ ?logs]) simp
qed

theorem startWorkoutLogging_initial_logs_witness:
  "hk_user demo_hook = Some demo_user
   \<and> (\<exists>logs. startWorkoutLogging demo_hook start_workout = (Inr logs, demo_hook\<lparr>logging := True\<rparr>)
         \<and> length logs = 2
         \<and> el_exercise_id (logs ! 1) = ''e2''
         \<and> length (el_sets (logs ! 0)) = 3
         \<and> ls_weight (el_sets (logs ! 0) ! 2) = Some 50
         \<and> ls_weight (el_sets (logs ! 1) ! 0) = Some 0
         \<and> ls_distance (el_sets (logs ! 1) ! 0) = Some 400)"
proof -
  have user: "hk_user demo_hook = Some demo_user" by (simp add: demo_hook_def)
  define es where "es = [(an_exercise ''Squat'')\<lparr>we_sets := 3, we_weight := Some 50, we_reps := 5\<rparr>,
              (an_exercise ''Run'')\<lparr>we_exercise_id := ''e2'', we_sets := 1, we_weight := Some 0,
                 we_distance := Some 400\<rparr>]"
  have w: "workout_exercises start_workout = Some es" by (simp add: start_workout_def es_def)
  from startWorkoutLogging_initial_logs [OF user, of start_workout]
  obtain logs where run: "startWorkoutLogging demo_hook start_workout
        = (Inr logs, demo_hook\<lparr>logging := True\<rparr>)"
    and len: "length logs = length es"
    and each: "\<forall>n < length es.
         el_exercise_id (logs ! n) = we_exercise_id (es ! n)
         \<and> length (el_sets (logs ! n)) = we_sets (es ! n)
         \<and> (\<forall>ls \<in> set (el_sets (logs ! n)).
               ls_weight ls = Some (case we_weight (es ! n) of
                                      None \<Rightarrow> 0 | Some v \<Rightarrow> if v \<noteq> 0 then v else 0)
               \<and> ls_reps ls = we_reps (es ! n)
               \<and> ls_distance ls = we_distance (es ! n)
               \<and> ls_time ls = we_time (es ! n)
               \<and> ls_calories ls = we_calories (es ! n)
               \<and> ls_id ls = None)"
    unfolding w by auto
  have l2: "length logs = 2" using len by (simp add: es_def)
  have n0: "0 < length es" and n1: "1 < length es" by (simp_all add: es_def)
  have es0: "es ! 0 = (an_exercise ''Squat'')\<lparr>we_sets := 3, we_weight := Some 50, we_reps := 5\<rparr>"
    and es1: "es ! 1 = (an_exercise ''Run'')\<lparr>we_exercise_id := ''e2'', we_sets := 1,
                 we_weight := Some 0, we_distance := Some 400\<rparr>"
    by (simp_all add: es_def)
  note c0 = each [rule_format, OF n0, unfolded es0]
  note c1 = each [rule_format, OF n1, unfolded es1]
  from c0 have e0: "length (el_sets (logs ! 0)) = 3" by simp
  from c1 have e1: "length (el_sets (logs ! 1)) = 1"
    and id1: "el_exercise_id (logs ! 1) = ''e2''"
    by simp_all
  from e0 have "el_sets (logs ! 0) ! 2 \<in> set (el_sets (logs ! 0))" by simp
  with c0 have w0: "ls_weight (el_sets (logs ! 0) ! 2) = Some 50" by simp
  from e1 have "el_sets (logs ! 1) ! 0 \<in> set (el_sets (logs ! 1))" by simp
  with c1 have w1: "ls_weight (el_sets (logs ! 1) ! 0) = Some 0"
    and d1: "ls_distance (el_sets (logs ! 1) ! 0) = Some 400"
    by simp_all
  from run l2 id1 e0 w0 w1 d1 user show ?thesis by (intro conjI exI [of _ logs])
qed

section \<open>Properties of the exercise records\<close>

lemma group_step_resolved:
  "resolved_name x \<notin> Some ` set inherited_keys
     \<Longrightarrow> group_step g x
           = Inr (case resolved_name x of None \<Rightarrow> g | Some n \<Rightarrow> push_group n x g)"
  by (auto simp: group_step_def resolved_name_def split: option.splits)

lemma keys_push_group:
  "map fst (push_group k v g) = (if k \<in> set (map fst g) then map fst g else map fst g @ [k])"
proof (induction g)
  case Nil
  show ?case by simp
next
  case (Cons a g)
  obtain k' vs where a: "a = (k', vs)" by (cases a)
  show ?case
  proof (cases "k = k'")
    case True
    then show ?thesis by (simp add: a)
  next
    case False
    then have "k \<in> set (map fst (a # g)) \<longleftrightarrow> k \<in> set (map fst g)" by (simp add: a)
    with False Cons.IH show ?thesis by (simp add: a del: set_map)
  qed
qed

lemma map_of_push_group:
  "map_of (push_group k v g)
     = (map_of g)(k \<mapsto> (case map_of g k of None \<Rightarrow> [v] | Some vs \<Rightarrow> vs @ [v]))"
  by (induction g) (auto simp: fun_eq_iff)

lemma group_step_inherited:
  assumes "resolved_name x = Some n" and "n \<in> set inherited_keys" and "n \<notin> set (map fst g)"
  shows "group_step g x = Inl (TypeError ''exerciseGroups[exerciseName].push is not a function'')"
proof -
  from assms(3) have "map_of g n = None" by (simp add: map_of_eq_None_iff)
  with assms(1,2) show ?thesis
    by (auto simp: group_step_def resolved_name_def split: option.splits if_splits)
qed

lemma group_step_keys:
  assumes "group_step g x = Inr g'"
  shows "set (map fst g') \<inter> set inherited_keys \<subseteq> set (map fst g) \<inter> set inherited_keys"
proof (cases "resolved_name x")
  case None
  with assms have "g' = g"
    by (auto simp: group_step_def resolved_name_def split: option.splits if_splits)
  then show ?thesis by simp
next
  case (Some n)
  with assms have g': "g' = push_group n x g"
    and own: "map_of g n \<noteq> None \<or> n \<notin> set inherited_keys"
    by (auto simp: group_step_def resolved_name_def split: option.splits if_splits)
  from own have "n \<in> set (map fst g) \<or> n \<notin> set inherited_keys"
    by (simp add: map_of_eq_None_iff)
  then show ?thesis unfolding g' by (auto simp: keys_push_group simp del: set_map)
qed

lemma grouped_push:
  "grouped g xs
     \<Longrightarrow> grouped (case resolved_name x of None \<Rightarrow> g | Some n \<Rightarrow> push_group n x g) (xs @ [x])"
proof (cases "resolved_name x")
  case None
  moreover assume "grouped g xs"
  ultimately show ?thesis by (simp add: grouped_def group_of_def)
next
  case (Some n)
  assume g: "grouped g xs"
  have "distinct (map fst (push_group n x g))"
    using g by (simp add: keys_push_group grouped_def)
  moreover have "map_of (push_group n x g) k
      = (if group_of k (xs @ [x]) = [] then None else Some (group_of k (xs @ [x])))" for k
    using g Some by (simp add: map_of_push_group grouped_def group_of_def)
  ultimately show ?thesis using Some by (simp add: grouped_def)
qed

lemma grouped_step:
  assumes "grouped g xs" and "resolved_name x \<notin> Some ` set inherited_keys"
  shows "\<exists>g'. group_step g x = Inr g' \<and> grouped g' (xs @ [x])"
  using grouped_push [OF assms(1), of x] group_step_resolved [OF assms(2), of g] by simp

lemma grouped_group_each:
  "grouped g xs \<Longrightarrow> \<forall>y \<in> set ys. resolved_name y \<notin> Some ` set inherited_keys
     \<Longrightarrow> \<exists>g'. group_each g ys = Inr g' \<and> grouped g' (xs @ ys)"
proof (induction ys arbitrary: g xs)
  case Nil
  then show ?case by simp
next
  case (Cons y ys)
  from Cons.prems have "resolved_name y \<notin> Some ` set inherited_keys" by simp
  from grouped_step [OF Cons.prems(1) this] obtain g1
    where step: "group_step g y = Inr g1" and g1: "grouped g1 (xs @ [y])" by blast
  from Cons.prems have "\<forall>y \<in> set ys. resolved_name y \<notin> Some ` set inherited_keys" by simp
  from Cons.IH [OF g1 this] step show ?case by simp
qed

lemma grouped_exerciseGroups:
  assumes "\<forall>y \<in> set en. resolved_name y \<notin> Some ` set inherited_keys"
  shows "\<exists>g. exerciseGroups en = Inr g \<and> grouped g en"
proof -
  have "grouped [] []" by (simp add: grouped_def group_of_def)
  from grouped_group_each [OF this assms] show ?thesis by (simp add: exerciseGroups_def)
qed

lemma group_each_inherited:
  "set (map fst g) \<inter> set inherited_keys = {}
     \<Longrightarrow> \<exists>y \<in> set ys. resolved_name y \<in> Some ` set inherited_keys
     \<Longrightarrow> group_each g ys = Inl (TypeError ''exerciseGroups[exerciseName].push is not a function'')"
proof (induction ys arbitrary: g)
  case Nil
  then show ?case by simp
next
  case (Cons y ys)
  show ?case
  proof (cases "resolved_name y \<in> Some ` set inherited_keys")
    case True
    then obtain n where n: "resolved_name y = Some n" "n \<in> set inherited_keys" by auto
    with Cons.prems(1) have "n \<notin> set (map fst g)" by blast
    from group_step_inherited [OF n this] show ?thesis by simp
  next
    case False
    with Cons.prems(2) have rest: "\<exists>y \<in> set ys. resolved_name y \<in> Some ` set inherited_keys"
      by simp
    from group_step_resolved [OF False, of g] obtain g1 where step: "group_step g y = Inr g1"
      by simp
    from group_step_keys [OF step] Cons.prems(1)
    have "set (map fst g1) \<inter> set inherited_keys = {}" by blast
    from Cons.IH [OF this rest] step show ?thesis by simp
  qed
qed

lemma grouped_entry:
  assumes "grouped g xs" and "(k, vs) \<in> set g"
  shows "vs = group_of k xs" and "vs \<noteq> []"
proof -
  from assms have "distinct (map fst g)" by (simp add: grouped_def)
  from map_of_is_SomeI [OF this assms(2)] have "map_of g k = Some vs" .
  with assms(1) have "(if group_of k xs = [] then None else Some (group_of k xs)) = Some vs"
    by (simp add: grouped_def)
  then show "vs = group_of k xs" and "vs \<noteq> []" by (auto split: if_splits)
qed

lemma grouped_keys:
  assumes "grouped g xs"
  shows "set (map fst g) = {n. \<exists>x \<in> set xs. resolved_name x = Some n}"
proof -
  have "k \<in> set (map fst g) \<longleftrightarrow> group_of k xs \<noteq> []" for k
  proof -
    have "k \<in> set (map fst g) \<longleftrightarrow> map_of g k \<noteq> None"
      by (simp add: map_of_eq_None_iff)
    with assms show ?thesis by (simp add: grouped_def)
  qed
  moreover have "group_of k xs \<noteq> [] \<longleftrightarrow> (\<exists>x \<in> set xs. resolved_name x = Some k)" for k
    by (simp add: group_of_def filter_empty_conv)
  ultimately show ?thesis by blast
qed

lemma mset_object_entries: "mset (object_entries kvs) = mset kvs"
  by (simp add: object_entries_def)

lemma set_object_entries: "set (object_entries kvs) = set kvs"
  using mset_object_entries [of kvs] by (metis set_mset_mset)

lemma distinct_keys_object_entries:
  "distinct (map fst (object_entries kvs)) = distinct (map fst kvs)"
proof -
  have "mset (map fst (object_entries kvs)) = mset (map fst kvs)"
    by (simp add: mset_object_entries)
  then show ?thesis by (rule mset_eq_imp_distinct_iff)
qed

lemma first_max_step:
  assumes "first_max m b pre"
  shows "first_max m (if m x > m b then x else b) (pre @ [x])"
proof -
  from assms obtain ys zs where pre: "pre = ys @ b # zs"
    and ys: "\<forall>y \<in> set ys. m y < m b" and zs: "\<forall>z \<in> set zs. m z \<le> m b"
    by (auto simp: first_max_def)
  show ?thesis
  proof (cases "m x > m b")
    case True
    have "pre @ [x] = (ys @ b # zs) @ x # []" by (simp add: pre)
    moreover have "\<forall>y \<in> set (ys @ b # zs). m y < m x" using True ys zs by fastforce
    ultimately have "first_max m x (pre @ [x])" unfolding first_max_def by fastforce
    with True show ?thesis by simp
  next
    case False
    have "pre @ [x] = ys @ b # (zs @ [x])" by (simp add: pre)
    moreover have "\<forall>z \<in> set (zs @ [x]). m z \<le> m b" using False zs by auto
    ultimately have "first_max m b (pre @ [x])" unfolding first_max_def using ys by blast
    with False show ?thesis by simp
  qed
qed

lemma first_max_foldl:
  "first_max m b pre
     \<Longrightarrow> first_max m (foldl (\<lambda>best current. if m current > m best then current else best) b xs)
           (pre @ xs)"
proof (induction xs arbitrary: b pre)
  case Nil
  then show ?case by simp
next
  case (Cons x xs)
  from Cons.prems have "first_max m (if m x > m b then x else b) (pre @ [x])"
    by (rule first_max_step)
  from Cons.IH [OF this] show ?case by simp
qed

lemma best_by_first_max:
  assumes "g \<noteq> []"
  shows "\<exists>r. best_by m g = Some r \<and> first_max m r g"
proof -
  from assms obtain s0 rest where g: "g = s0 # rest" by (cases g) auto
  have "first_max m s0 [s0]" unfolding first_max_def by (intro exI [of _ "[]"]) simp
  from first_max_foldl [OF this, of rest]
  have "first_max m (foldl (\<lambda>best current. if m current > m best then current else best) s0 rest) g"
    by (simp add: g)
  then show ?thesis by (simp add: best_by_def g)
qed

lemma bestScore_first_max:
  assumes "vs \<noteq> []"
  shows "\<exists>r. bestScore (k, vs) = Some r \<and> first_max (record_measure k) r vs"
proof -
  consider (run) "k = ''Run''"
    | (bike) "k \<noteq> ''Run''" "k = ''Assault Bike''"
    | (other) "k \<noteq> ''Run''" "k \<noteq> ''Assault Bike''"
    by blast
  then show ?thesis
  proof cases
    case run
    then have m: "record_measure k = (\<lambda>x. or_zero (sc_distance (en_score x)))"
      by (intro ext) (simp add: record_measure_def or_zero_eq)
    from best_by_first_max [OF assms, of "\<lambda>x. or_zero (sc_distance (en_score x))"] run
    show ?thesis unfolding m by (simp add: bestScore_def)
  next
    case bike
    then have m: "record_measure k = (\<lambda>x. or_zero (sc_calories (en_score x)))"
      by (intro ext) (simp add: record_measure_def or_zero_eq)
    from best_by_first_max [OF assms, of "\<lambda>x. or_zero (sc_calories (en_score x))"] bike
    show ?thesis unfolding m by (simp add: bestScore_def)
  next
    case other
    then have m: "record_measure k = (\<lambda>x. or_zero (sc_weight (en_score x)))"
      by (intro ext) (simp add: record_measure_def or_zero_eq)
    from best_by_first_max [OF assms, of "\<lambda>x. or_zero (sc_weight (en_score x))"] other
    show ?thesis unfolding m by (simp add: bestScore_def)
  qed
qed

lemma distinct_map_Some: "distinct xs \<Longrightarrow> distinct (map Some xs)"
  by (simp add: distinct_map)

lemma first_max_member: "first_max m r g \<Longrightarrow> r \<in> set g"
  by (auto simp: first_max_def)

lemma map_filter_all_Some:
  assumes "\<forall>e \<in> set es. \<exists>r. f e = Some r \<and> P e r"
  shows "list_all2 P es (List.map_filter f es)"
  using assms
proof (induction es)
  case Nil
  show ?case by (simp add: List.map_filter_simps)
next
  case (Cons e es)
  then obtain r where "f e = Some r" "P e r" by auto
  with Cons show ?case by (simp add: List.map_filter_simps)
qed

lemma bestScores_entries:
  assumes g: "grouped g en"
  shows "list_all2 (\<lambda>e r. resolved_name r = Some (fst e) \<and> selected en r)
     (object_entries g) (bestScores g)"
  unfolding bestScores_def
proof (rule map_filter_all_Some, rule ballI)
  fix e assume "e \<in> set (object_entries g)"
  then have mem: "(fst e, snd e) \<in> set g"
    by (simp add: set_object_entries)
  note ent = grouped_entry [OF g mem]
  from bestScore_first_max [OF ent(2), of "fst e"] obtain r
    where r: "bestScore e = Some r" and fm: "first_max (record_measure (fst e)) r (snd e)"
    by auto
  from fm have fm': "first_max (record_measure (fst e)) r (group_of (fst e) en)"
    using ent(1) by simp
  from first_max_member [OF fm'] have name: "resolved_name r = Some (fst e)"
    by (simp add: group_of_def)
  with fm' have "selected en r" unfolding selected_def by blast
  with r name show "\<exists>r. bestScore e = Some r \<and> resolved_name r = Some (fst e) \<and> selected en r"
    by blast
qed

lemma bestScores_names:
  assumes g: "grouped g en"
  shows "map resolved_name (bestScores g) = map (Some \<circ> fst) (object_entries g)"
proof -
  have "list_all2 (\<lambda>e r. resolved_name r = (Some \<circ> fst) e)
      (object_entries g) (bestScores g)"
    using bestScores_entries [OF g] by (rule list_all2_mono) simp
  then show ?thesis
    by (induction rule: list_all2_induct) simp_all
qed

lemma bestScores_selected:
  assumes g: "grouped g en" and r: "r \<in> set (bestScores g)"
  shows "selected en r"
proof -
  from bestScores_entries [OF g] r obtain e where "selected en r"
    by (auto simp: list_all2_conv_all_nth in_set_conv_nth)
  then show ?thesis .
qed

lemma bestScores_distinct:
  assumes g: "grouped g en"
  shows "distinct (map resolved_name (bestScores g))"
proof -
  have "distinct (map fst g)"
    using g by (simp add: grouped_def)
  then have "distinct (map fst (object_entries g))"
    by (simp add: distinct_keys_object_entries)
  then have "distinct (map Some (map fst (object_entries g)))"
    by (rule distinct_map_Some)
  then show ?thesis by (simp add: bestScores_names [OF g])
qed

lemma bestScores_cover:
  assumes g: "grouped g en"
  shows "set (map resolved_name (bestScores g))
     = {Some n | n. \<exists>x \<in> set en. resolved_name x = Some n}"
proof -
  have "set (map resolved_name (bestScores g)) = Some ` set (map fst g)"
    by (simp add: bestScores_names [OF g] set_object_entries image_image)
  also have "\<dots> = Some ` {n. \<exists>x \<in> set en. resolved_name x = Some n}"
    by (simp only: grouped_keys [OF g])
  finally show ?thesis by blast
qed

lemma topRecords_props:
  "length (topRecords best) \<le> 5"
  "sorted_wrt (\<lambda>a b. en_date b \<le> en_date a) (topRecords best)"
  "set (topRecords best) \<subseteq> set best"
  "distinct (map f best) \<Longrightarrow> distinct (map f (topRecords best))"
proof -
  let ?sorted = "sort_key (\<lambda>r. - en_date r) best"
  show "length (topRecords best) \<le> 5" by (simp add: topRecords_def)
  have "sorted (map (\<lambda>r. - en_date r) ?sorted)" by (rule sorted_sort_key)
  then have "sorted_wrt (\<lambda>a b. en_date b \<le> en_date a) ?sorted"
    by (simp add: sorted_map)
  then show "sorted_wrt (\<lambda>a b. en_date b \<le> en_date a) (topRecords best)"
    unfolding topRecords_def by (rule sorted_wrt_take)
  show "set (topRecords best) \<subseteq> set best"
    using set_take_subset [of 5 ?sorted] by (simp add: topRecords_def)
  assume "distinct (map f best)"
  moreover have "mset (map f ?sorted) = mset (map f best)" by simp
  ultimately have "distinct (map f ?sorted)" by (metis mset_eq_imp_distinct_iff)
  then have "distinct (take 5 (map f ?sorted))" by (rule distinct_take)
  then show "distinct (map f (topRecords best))" by (simp add: topRecords_def take_map)
qed

lemma exerciseRecords_top:
  assumes "exerciseGroups (map (enhance exercises (workoutInfo workouts)) scores) = Inr g"
  shows "exerciseRecords scores exercises workouts = Inr (topRecords (bestScores g))"
proof (cases "scores = []")
  case True
  with assms have "g = []" by (simp add: exerciseGroups_def)
  with True show ?thesis
    by (simp add: exerciseRecords_def topRecords_def bestScores_def object_entries_def
        List.map_filter_simps)
next
  case False
  with assms show ?thesis by (simp add: exerciseRecords_def)
qed

text \<open>
  As long as no exercise name among the scores is a property every object inherits, the
  fetch ends with records. At most five records are shown, newest date first. No two of
  them have the same exercise name, each has a name that resolves, and each is the
  first maximum of the scores of its name in fetch order: the distance for "Run", the
  calories for "Assault Bike", the weight otherwise, an absent value counting as 0;
  every score before it in its group is strictly smaller, so of equal scores the
  earlier one is kept. The records shown are the first five, by date, of the selected
  records, which have one record for every name that resolves.
\<close>

theorem exerciseRecords_own_names:
  assumes en: "en = map (enhance exercises (workoutInfo workouts)) scores"
    and own: "\<forall>x \<in> set en. resolved_name x \<notin> Some ` set inherited_keys"
  shows "\<exists>recs g. exerciseRecords scores exercises workouts = Inr recs
         \<and> exerciseGroups en = Inr g
         \<and> length recs \<le> 5
         \<and> sorted_wrt (\<lambda>a b. en_date b \<le> en_date a) recs
         \<and> distinct (map resolved_name recs)
         \<and> (\<forall>r \<in> set recs. \<exists>n. resolved_name r = Some n
               \<and> (\<exists>ys zs. filter (\<lambda>x. resolved_name x = Some n) en = ys @ r # zs
                     \<and> (\<forall>y \<in> set ys. record_measure n y < record_measure n r)
                     \<and> (\<forall>z \<in> set zs. record_measure n z \<le> record_measure n r)))
         \<and> recs = take 5 (sort_key (\<lambda>r. - en_date r) (bestScores g))
         \<and> set (map resolved_name (bestScores g))
             = {Some n | n. \<exists>x \<in> set en. resolved_name x = Some n}"
proof -
  from grouped_exerciseGroups [OF own] obtain g
    where groups: "exerciseGroups en = Inr g" and g: "grouped g en" by blast
  define recs where "recs = topRecords (bestScores g)"
  have res: "exerciseRecords scores exercises workouts = Inr recs"
    unfolding recs_def using groups unfolding en by (rule exerciseRecords_top)
  have p1: "length recs \<le> 5" unfolding recs_def by (rule topRecords_props(1))
  have p2: "sorted_wrt (\<lambda>a b. en_date b \<le> en_date a) recs"
    unfolding recs_def by (rule topRecords_props(2))
  have p3: "distinct (map resolved_name recs)"
    unfolding recs_def using bestScores_distinct [OF g] by (rule topRecords_props(4))
  have p4: "\<forall>r \<in> set recs. \<exists>n. resolved_name r = Some n
               \<and> (\<exists>ys zs. filter (\<lambda>x. resolved_name x = Some n) en = ys @ r # zs
                     \<and> (\<forall>y \<in> set ys. record_measure n y < record_measure n r)
                     \<and> (\<forall>z \<in> set zs. record_measure n z \<le> record_measure n r))"
  proof
    fix r assume "r \<in> set recs"
    with topRecords_props(3) [of "bestScores g"] have "r \<in> set (bestScores g)"
      unfolding recs_def by blast
    with g have "selected en r" by (rule bestScores_selected)
    then show "\<exists>n. resolved_name r = Some n
               \<and> (\<exists>ys zs. filter (\<lambda>x. resolved_name x = Some n) en = ys @ r # zs
                     \<and> (\<forall>y \<in> set ys. record_measure n y < record_measure n r)
                     \<and> (\<forall>z \<in> set zs. record_measure n z \<le> record_measure n r))"
      unfolding selected_def first_max_def group_of_def .
  qed
  have p5: "recs = take 5 (sort_key (\<lambda>r. - en_date r) (bestScores g))"
    by (simp only: recs_def topRecords_def)
  note p6 = bestScores_cover [OF g]
  from res groups p1 p2 p3 p4 p5 p6 show ?thesis
    by (intro exI [of _ recs] exI [of _ g] conjI)
qed

text \<open>The example: the records shown are \<open>s2\<close> for "Run" and \<open>s3\<close>, the first of the two
  heaviest, for "Bench Press".\<close>

theorem exerciseRecords_own_names_example:
  "map (sc_id \<circ> en_score) demo_records = [''s2'', ''s3'']
   \<and> length demo_records \<le> 5
   \<and> distinct (map resolved_name demo_records)
   \<and> (\<exists>ys zs. filter (\<lambda>x. resolved_name x = Some ''Bench Press'') demo_enhanced
                 = ys @ demo_records ! 1 # zs
         \<and> (\<forall>y \<in> set ys. record_measure ''Bench Press'' y
                            < record_measure ''Bench Press'' (demo_records ! 1))
         \<and> (\<forall>z \<in> set zs. record_measure ''Bench Press'' z
                            \<le> record_measure ''Bench Press'' (demo_records ! 1)))"
proof -
  have ids: "map (sc_id \<circ> en_score) demo_records = [''s2'', ''s3'']"
    unfolding demo_records_def by code_simp
  then have "length (map (sc_id \<circ> en_score) demo_records) = 2" by simp
  then have mem: "demo_records ! 1 \<in> set demo_records" by simp
  have name: "resolved_name (demo_records ! 1) = Some ''Bench Press''"
    unfolding demo_records_def by code_simp
  have own: "\<forall>x \<in> set demo_enhanced. resolved_name x \<notin> Some ` set inherited_keys"
    by code_simp
  from exerciseRecords_own_names [OF demo_enhanced_def own] obtain recs g
    where res: "exerciseRecords demo_scores demo_exercises [] = Inr recs"
      and p1: "length recs \<le> 5"
      and p3: "distinct (map resolved_name recs)"
      and p4: "\<forall>r \<in> set recs. \<exists>n. resolved_name r = Some n
       \<and> (\<exists>ys zs. filter (\<lambda>x. resolved_name x = Some n) demo_enhanced = ys @ r # zs
             \<and> (\<forall>y \<in> set ys. record_measure n y < record_measure n r)
             \<and> (\<forall>z \<in> set zs. record_measure n z \<le> record_measure n r))"
    by (elim exE conjE)
  from res have recs: "demo_records = recs" by (simp add: demo_records_def shown_def)
  from p4 [folded recs, rule_format, OF mem] name
  have "\<exists>ys zs. filter (\<lambda>x. resolved_name x = Some ''Bench Press'') demo_enhanced
                 = ys @ demo_records ! 1 # zs
         \<and> (\<forall>y \<in> set ys. record_measure ''Bench Press'' y
                            < record_measure ''Bench Press'' (demo_records ! 1))
         \<and> (\<forall>z \<in> set zs. record_measure ''Bench Press'' z
                            \<le> record_measure ''Bench Press'' (demo_records ! 1))"
    by auto
  with ids p1 [folded recs] p3 [folded recs] show ?thesis by (intro conjI)
qed

text \<open>
  An exercise name that every object inherits ends the fetch with the error message,
  whatever the other scores are.
\<close>

lemma exerciseRecords_inherited:
  assumes "\<exists>x \<in> set (map (enhance exercises (workoutInfo workouts)) scores).
             resolved_name x \<in> Some ` set inherited_keys"
  shows "exerciseRecords scores exercises workouts
           = Inl ''Failed to load exercise records. Please try again later.''"
proof -
  from assms have "scores \<noteq> []" by auto
  moreover have "exerciseGroups (map (enhance exercises (workoutInfo workouts)) scores)
      = Inl (TypeError ''exerciseGroups[exerciseName].push is not a function'')"
    unfolding exerciseGroups_def by (rule group_each_inherited [OF _ assms]) simp
  ultimately show ?thesis by (simp add: exerciseRecords_def)
qed

text \<open>
  C10. The six example scores with all three exercises fetched, the third one called
  \<open>constructor\<close>: every score resolves to a name, so the selection has a record for each
  of the three names (\<open>s2\<close> for "Run", \<open>s3\<close> for "Bench Press", \<open>s4\<close> for "constructor").
  The component shows the error message and no record at all, because grouping the
  score \<open>s4\<close> throws. Without that exercise the same scores give the records \<open>s2\<close> and
  \<open>s3\<close>.
\<close>

theorem exerciseRecords_inherited_name:
  "map resolved_name (map (enhance named_constructor (workoutInfo [])) demo_scores)
     = [Some ''Bench Press'', Some ''Run'', Some ''Bench Press'', Some ''constructor'',
        Some ''Bench Press'', Some ''Run'']
   \<and> exerciseRecords demo_scores named_constructor []
       = Inl ''Failed to load exercise records. Please try again later.''
   \<and> shown (exerciseRecords demo_scores named_constructor []) = []
   \<and> map (sc_id \<circ> en_score) (shown (exerciseRecords demo_scores demo_exercises []))
       = [''s2'', ''s3'']"
proof -
  have names: "map resolved_name (map (enhance named_constructor (workoutInfo [])) demo_scores)
     = [Some ''Bench Press'', Some ''Run'', Some ''Bench Press'', Some ''constructor'',
        Some ''Bench Press'', Some ''Run'']"
    by code_simp
  have failed: "exerciseRecords demo_scores named_constructor []
       = Inl ''Failed to load exercise records. Please try again later.''"
    by code_simp
  then have none: "shown (exerciseRecords demo_scores named_constructor []) = []"
    by (simp add: shown_def)
  have two: "map (sc_id \<circ> en_score) (shown (exerciseRecords demo_scores demo_exercises []))
       = [''s2'', ''s3'']"
    by code_simp
  from names failed none two show ?thesis by (intro conjI)
qed

end
